theory Spec2Isabelle
  imports Main "HOL-Library.List_Lexorder" "HOL-Library.Char_ord" "HOL-Library.Word"
    "HOL-Library.AList" "HOL-Library.Multiset"
begin

section \<open>The constant extraction pipeline of sys/syz-extract/extract.go\<close>

text \<open>
  A shallow embedding of \<^verbatim>\<open>extract.go\<close>: the set-up code (\<^verbatim>\<open>archList\<close>,
  \<^verbatim>\<open>createArches\<close>), the two job bodies (\<^verbatim>\<open>processArch\<close>, \<^verbatim>\<open>processFile\<close>), the
  cross-architecture check (\<^verbatim>\<open>checkUnsupportedCalls\<close>) and the concurrent part of
  \<^verbatim>\<open>main\<close>: the worker goroutines and the collecting main goroutine, as an interleaving
  semantics with one small step per shared-memory or channel operation.

  Pointers \<^verbatim>\<open>*Arch\<close> are indices into the slice \<^verbatim>\<open>arches\<close>; a pointer \<^verbatim>\<open>*File\<close> is the
  pair of its architecture's index and its position in \<^verbatim>\<open>arch.files\<close>. A channel
  \<^verbatim>\<open>done\<close> that is only ever closed is a boolean (closed or not); the buffered channel
  \<^verbatim>\<open>jobC\<close> is the list of its buffered elements, with its capacity checked on send.
  Go maps are association lists; where the source ranges over a map the result is used
  only through sets or after sorting, or the order is chosen by the scheduler.
\<close>

subsection \<open>Data\<close>

type_synonym error = string

text \<open>\<^verbatim>\<open>map[string]uint64\<close> and \<^verbatim>\<open>map[string]bool\<close>; a nil map is the empty list.\<close>

type_synonym ConstMap = "(string \<times> 64 word) list"
type_synonym BoolMap = "(string \<times> bool) list"

text \<open>Of \<^verbatim>\<open>targets.Target\<close> and \<^verbatim>\<open>compiler.ConstInfo\<close> the fields that extract.go reads.\<close>

record Target =
  OS :: string
  Arch :: string

record ConstInfo =
  Consts :: "string list"

text \<open>
  The channel field \<^verbatim>\<open>done\<close> is called \<open>done_ch\<close> (True once it is closed) and the
  field \<^verbatim>\<open>consts\<close> of a file \<open>file_consts\<close>: both names are Isabelle keywords.
\<close>

record File =
  arch :: nat
  name :: string
  file_consts :: ConstMap
  undeclared :: BoolMap
  info :: "ConstInfo option"
  err :: "error option"
  done_ch :: bool

record Arch =
  target :: Target
  sourceDir :: string
  includeDirs :: string
  buildDir :: string
  build :: bool
  files :: "File list"
  err :: "error option"
  done_ch :: bool

text \<open>
  The interface \<^verbatim>\<open>Extractor\<close>. Its implementations are not part of extract.go; they are
  taken as functions of their arguments.
\<close>

record Extractor =
  prepare :: "string \<Rightarrow> bool \<Rightarrow> Arch list \<Rightarrow> error option"
  prepareArch :: "Arch \<Rightarrow> error option"
  processFile :: "Arch \<Rightarrow> ConstInfo \<Rightarrow> ConstMap \<times> BoolMap \<times> error option"

text \<open>The entries of the map that \<^verbatim>\<open>compiler.FileList\<close> returns.\<close>

record Meta =
  NoExtract :: bool
  SupportsArch :: "string \<Rightarrow> bool"

text \<open>The command line: the six flags and \<^verbatim>\<open>flag.Args()\<close>.\<close>

record Flags =
  flagOS :: string
  flagBuild :: bool
  flagSourceDir :: string
  flagIncludes :: string
  flagBuildDir :: string
  flagArch :: string
  Args :: "string list"

text \<open>
  Everything extract.go calls but does not define, as parameters: the target registry,
  the parser and compiler passes (each returns the calls it made to the error handler,
  as pairs of position and message, and its result, \<open>None\<close> for nil), the one registered
  extractor, \<^verbatim>\<open>ioutil.TempDir\<close> (its result at the n-th call), \<^verbatim>\<open>filepath.Join\<close>, the
  operations of \<^verbatim>\<open>compiler.ConstFile\<close>, \<^verbatim>\<open>osutil.WriteFile\<close> and
  \<^verbatim>\<open>runtime.GOMAXPROCS(0)\<close>. \<open>targets_List os\<close> lists the keys of \<^verbatim>\<open>targets.List[os]\<close>
  in the order the range statement happens to visit them.
\<close>

record ('ast, 'cf) Env =
  GOMAXPROCS :: nat
  targets_List :: "string \<Rightarrow> string list"
  targets_Get :: "string \<Rightarrow> string \<Rightarrow> Target option"
  ParseGlob :: "string \<Rightarrow> (string \<times> string) list \<times> 'ast option"
  FileList :: "'ast \<Rightarrow> string \<Rightarrow> (string \<times> string) list \<times> (string \<times> Meta) list option"
  ExtractConsts :: "'ast \<Rightarrow> Target \<Rightarrow> (string \<times> string) list \<times> (string \<Rightarrow> ConstInfo option) option"
  windows :: Extractor
  TempDir :: "nat \<Rightarrow> error + string"
  Join :: "string list \<Rightarrow> string"
  NewConstFile :: 'cf
  AddArch :: "'cf \<Rightarrow> string \<Rightarrow> ConstMap \<Rightarrow> BoolMap \<Rightarrow> 'cf"
  Serialize :: "'cf \<Rightarrow> string"
  WriteFile :: "string \<Rightarrow> string \<Rightarrow> error option"

subsection \<open>Set-up: archList and createArches\<close>

definition targets_Windows :: string where
  "targets_Windows = ''windows''"

definition extractors :: "('ast, 'cf) Env \<Rightarrow> string \<Rightarrow> Extractor option" where
  "extractors env os = (if os = targets_Windows then Some (windows env) else None)"

text \<open>\<^verbatim>\<open>strings.Split(s, ",")\<close> for the one-byte separator.\<close>

fun strings_Split :: "string \<Rightarrow> char \<Rightarrow> string list" where
  "strings_Split [] sep = [[]]"
| "strings_Split (c # cs) sep =
     (if c = sep then [] # strings_Split cs sep
      else (case strings_Split cs sep of
              [] \<Rightarrow> [[c]]
            | w # ws \<Rightarrow> (c # w) # ws))"

definition archList :: "('ast, 'cf) Env \<Rightarrow> string \<Rightarrow> string \<Rightarrow> string list" where
  "archList env os arches =
     (if arches \<noteq> [] then strings_Split arches (CHR '','')
      else sort (targets_List env os))"

text \<open>The error handler \<^verbatim>\<open>eh\<close> appends one line per call to \<^verbatim>\<open>errBuf\<close>.\<close>

definition errBuf :: "(string \<times> string) list \<Rightarrow> string" where
  "errBuf calls = concat (map (\<lambda>(pos, msg). pos @ '': '' @ msg @ [CHR 0x0A]) calls)"

definition newFile :: "nat \<Rightarrow> string \<Rightarrow> File" where
  "newFile a f = \<lparr> arch = a, name = f, file_consts = [], undeclared = [], info = None,
     err = None, done_ch = False \<rparr>"

text \<open>
  The files of one architecture: the explicit list if there is one, otherwise the
  discovered files that are neither NoExtract nor unsupported on it; then sorted.
\<close>

definition archFiles :: "string list \<Rightarrow> (string \<times> Meta) list \<Rightarrow> string \<Rightarrow> string list" where
  "archFiles fs allFiles archStr =
     sort (if length fs = 0
           then map fst (filter (\<lambda>(file, meta). \<not> (NoExtract meta \<or> \<not> SupportsArch meta archStr)) allFiles)
           else fs)"

text \<open>
  The loop over \<^verbatim>\<open>archArray\<close>; \<open>arches\<close> is the slice built so far, and the new
  architecture's pointer is its length. \<^verbatim>\<open>ioutil.TempDir\<close> is called once per iteration
  in build mode, before the target is looked up.
\<close>

fun createArches_loop ::
  "('ast, 'cf) Env \<Rightarrow> Flags \<Rightarrow> string \<Rightarrow> string list \<Rightarrow> (string \<times> Meta) list \<Rightarrow>
   Arch list \<Rightarrow> string list \<Rightarrow> error + Arch list" where
  "createArches_loop env fl os fs allFiles arches [] = Inr arches"
| "createArches_loop env fl os fs allFiles arches (archStr # rest) =
     (case (if flagBuild fl
            then (case TempDir env (length arches) of
                    Inl e \<Rightarrow> Inl (''failed to create temp dir: '' @ e)
                  | Inr dir \<Rightarrow> Inr dir)
            else if flagBuildDir fl \<noteq> [] then Inr (flagBuildDir fl)
            else Inr (flagSourceDir fl)) of
        Inl e \<Rightarrow> Inl e
      | Inr dir \<Rightarrow>
          (case targets_Get env os archStr of
             None \<Rightarrow> Inl (''unknown arch: '' @ archStr)
           | Some t \<Rightarrow>
               createArches_loop env fl os fs allFiles
                 (arches @
                  [\<lparr> target = t, sourceDir = flagSourceDir fl, includeDirs = flagIncludes fl,
                     buildDir = dir, build = flagBuild fl,
                     files = map (newFile (length arches)) (archFiles fs allFiles archStr),
                     err = None, done_ch = False \<rparr>])
                 rest))"

definition createArches ::
  "('ast, 'cf) Env \<Rightarrow> Flags \<Rightarrow> string \<Rightarrow> string list \<Rightarrow> string list \<Rightarrow> error + Arch list" where
  "createArches env fl os archArray fs =
     (case ParseGlob env (Join env [''sys'', os, ''*.txt'']) of
        (calls1, None) \<Rightarrow> Inl (errBuf calls1)
      | (calls1, Some desc) \<Rightarrow>
          (case FileList env desc os of
             (calls2, None) \<Rightarrow> Inl (errBuf (calls1 @ calls2))
           | (calls2, Some allFiles) \<Rightarrow> createArches_loop env fl os fs allFiles [] archArray))"

subsection \<open>The job bodies\<close>

definition processArch ::
  "('ast, 'cf) Env \<Rightarrow> Extractor \<Rightarrow> Arch \<Rightarrow> (string \<Rightarrow> ConstInfo option) \<times> error option" where
  "processArch env extractor a =
     (case ParseGlob env (Join env [''sys'', OS (target a), ''*.txt'']) of
        (calls1, None) \<Rightarrow> (Map.empty, Some (errBuf calls1))
      | (calls1, Some desc) \<Rightarrow>
          (case ExtractConsts env desc (target a) of
             (calls2, None) \<Rightarrow> (Map.empty, Some (errBuf (calls1 @ calls2)))
           | (calls2, Some infos) \<Rightarrow>
               (case prepareArch extractor a of
                  Some e \<Rightarrow> (Map.empty, Some e)
                | None \<Rightarrow> (infos, None))))"

text \<open>
  \<^verbatim>\<open>processFile\<close> returns its three results and, beside them, the calls it made to the
  backend (\<^verbatim>\<open>extractor.processFile\<close>), so that "the backend was invoked" is a property
  of the value.
\<close>

definition processFile ::
  "('ast, 'cf) Env \<Rightarrow> Extractor \<Rightarrow> Arch \<Rightarrow> File \<Rightarrow>
   (ConstMap \<times> BoolMap \<times> error option) \<times> (Arch \<times> ConstInfo) list" where
  "processFile env extractor a file =
     (let inname = Join env [''sys'', OS (target a), name file] in
      case info file of
        None \<Rightarrow> (([], [], Some (''const info for input file '' @ inname @ '' is missing'')), [])
      | Some i \<Rightarrow>
          if length (Consts i) = 0 then (([], [], None), [])
          else (Extractor.processFile extractor a i, [(a, i)]))"

subsection \<open>checkUnsupportedCalls\<close>

text \<open>
  The two maps are built in the order of the nested loops; the report ranges over
  \<open>unsupported\<close> (in Go in no fixed order: only the set of lines is meaningful). The
  result is the flag \<open>failed\<close> and, for each line printed, the pair of file and name it
  reports.
\<close>

definition scanFile :: "(string \<times> bool) list \<times> (string \<times> string) list \<Rightarrow> File \<Rightarrow>
    (string \<times> bool) list \<times> (string \<times> string) list" where
  "scanFile maps f =
     (let supported = foldl (\<lambda>m n. AList.update n True m) (fst maps) (map fst (file_consts f));
          unsupported = foldl (\<lambda>m n. AList.update n (name f) m) (snd maps) (map fst (undeclared f))
      in (supported, unsupported))"

definition scanArches :: "Arch list \<Rightarrow> (string \<times> bool) list \<times> (string \<times> string) list" where
  "scanArches arches = foldl (\<lambda>maps a. foldl scanFile maps (files a)) ([], []) arches"

definition unsupportedReport :: "Arch list \<Rightarrow> (string \<times> string) list" where
  "unsupportedReport arches =
     (let (supported, unsupported) = scanArches arches
      in map (\<lambda>(n, file). (file, n))
           (filter (\<lambda>(n, file). \<not> (case map_of supported n of Some b \<Rightarrow> b | None \<Rightarrow> False))
              unsupported))"

definition checkUnsupportedCalls :: "Arch list \<Rightarrow> bool \<times> (string \<times> string) list" where
  "checkUnsupportedCalls arches = (unsupportedReport arches \<noteq> [], unsupportedReport arches)"

subsection \<open>The concurrent part of main: jobs, workers and the collector\<close>

text \<open>
  What travels through \<^verbatim>\<open>jobC\<close>: a \<^verbatim>\<open>*Arch\<close> or a \<^verbatim>\<open>*File\<close>.
\<close>

datatype job = ArchJob nat | FileJob nat nat

datatype field = ErrF | ConstsF | UndeclaredF | InfoF

text \<open>
  The observable history of a run, in the order things happen: the channel operations
  and the writes of the workers (with the worker's number), the collector's completed
  receives from a \<^verbatim>\<open>done\<close> channel and its reads of result fields, the four print
  statements with their arguments (lines 102, 107, 114 and 269), the call of
  \<^verbatim>\<open>checkUnsupportedCalls\<close>, and the calls of \<^verbatim>\<open>Serialize\<close>, \<^verbatim>\<open>os.Remove\<close>,
  \<^verbatim>\<open>osutil.WriteFile\<close> (with its outcome) and \<^verbatim>\<open>os.RemoveAll\<close>.
\<close>

datatype event =
    Recv nat job
  | Send nat job
  | Write nat job field
  | Close nat job
  | Wait job
  | Read job field
  | Print_generating string string
  | Print_arch_err error
  | Print_file_err string error
  | Print_unsupported string string
  | CallCheck
  | Serialized string
  | Removed string
  | Wrote string string "error option"
  | RemovedAll string

text \<open>The bytes a print statement writes to the standard output.\<close>

definition printed :: "event \<Rightarrow> string" where
  "printed e =
     (case e of
        Print_generating os a \<Rightarrow> ''generating '' @ os @ ''/'' @ a @ ''...'' @ [CHR 0x0A]
      | Print_arch_err m \<Rightarrow> m @ [CHR 0x0A]
      | Print_file_err f m \<Rightarrow> f @ '': '' @ m @ [CHR 0x0A]
      | Print_unsupported f n \<Rightarrow> f @ '': '' @ n @ '' is unsupported on all arches (typo?)'' @ [CHR 0x0A]
      | _ \<Rightarrow> [])"

text \<open>
  The program counter of a worker (lines 149 to 171). The local variable \<^verbatim>\<open>infos\<close>
  lives in the counter; the loop of line 160 is at file number \<open>k\<close>.
\<close>

datatype wpc =
    W_Recv
  | W_Arch nat
  | W_ArchClose nat "string \<Rightarrow> ConstInfo option"
  | W_ArchCheck nat "string \<Rightarrow> ConstInfo option"
  | W_Files nat "string \<Rightarrow> ConstInfo option" nat
  | W_Send nat "string \<Rightarrow> ConstInfo option" nat
  | W_File nat nat
  | W_FileClose nat nat

text \<open>
  The program counter of main from line 101 on. \<open>M_Write\<close> holds the entries of
  \<^verbatim>\<open>constFiles\<close> that the loop of line 124 has not visited yet; \<open>M_Exit\<close> is the end of
  main with the exit status, \<open>M_Failf\<close> the exit through \<^verbatim>\<open>tool.Failf\<close> (status 1) and
  \<open>M_Panic\<close> the run-time panic of closing a closed channel.
\<close>

datatype 'cf mpc =
    M_Arch nat
  | M_WaitArch nat
  | M_ArchErr nat
  | M_File nat nat
  | M_FileErr nat nat
  | M_Write "(string \<times> 'cf) list"
  | M_Check
  | M_Cleanup nat
  | M_Exit nat
  | M_Failf string
  | M_Panic

record 'cf state =
  arches :: "Arch list"
  jobC :: "job list"
  workers :: "wpc list"
  mainpc :: "'cf mpc"
  failed :: bool
  constFiles :: "(string \<times> 'cf) list"
  trace :: "event list"

definition updArch :: "nat \<Rightarrow> (Arch \<Rightarrow> Arch) \<Rightarrow> Arch list \<Rightarrow> Arch list" where
  "updArch p g as = as[p := g (as ! p)]"

definition updFile :: "nat \<Rightarrow> nat \<Rightarrow> (File \<Rightarrow> File) \<Rightarrow> Arch list \<Rightarrow> Arch list" where
  "updFile p k g as = updArch p (\<lambda>a. a\<lparr>files := (files a)[k := g (files a ! k)]\<rparr>) as"

definition the_file :: "Arch list \<Rightarrow> nat \<Rightarrow> nat \<Rightarrow> File" where
  "the_file as p k = files (as ! p) ! k"

definition terminated :: "'cf mpc \<Rightarrow> bool" where
  "terminated pc = (case pc of M_Exit c \<Rightarrow> True | M_Failf m \<Rightarrow> True | M_Panic \<Rightarrow> True | _ \<Rightarrow> False)"

text \<open>
  One step of worker \<open>w\<close>; \<open>None\<close> when it is blocked (receiving from the empty queue,
  sending to the full one: the capacity of \<^verbatim>\<open>jobC\<close> is \<^verbatim>\<open>len(arches)\<close>).
\<close>

definition worker_step ::
  "('ast, 'cf) Env \<Rightarrow> Extractor \<Rightarrow> nat \<Rightarrow> 'cf state \<Rightarrow> 'cf state option" where
  "worker_step env ex w s =
     (case workers s ! w of
        W_Recv \<Rightarrow>
          (case jobC s of
             [] \<Rightarrow> None
           | j # js \<Rightarrow>
               Some (s\<lparr>jobC := js,
                 workers := (workers s)[w := (case j of ArchJob p \<Rightarrow> W_Arch p | FileJob p k \<Rightarrow> W_File p k)],
                 trace := trace s @ [Recv w j]\<rparr>))
      | W_Arch p \<Rightarrow>
          (let (infos, e) = processArch env ex (arches s ! p) in
           Some (s\<lparr>arches := updArch p (\<lambda>a. a\<lparr>Arch.err := e\<rparr>) (arches s),
             workers := (workers s)[w := W_ArchClose p infos],
             trace := trace s @ [Write w (ArchJob p) ErrF]\<rparr>))
      | W_ArchClose p infos \<Rightarrow>
          if Arch.done_ch (arches s ! p) then Some (s\<lparr>mainpc := M_Panic\<rparr>)
          else Some (s\<lparr>arches := updArch p (\<lambda>a. a\<lparr>Arch.done_ch := True\<rparr>) (arches s),
                 workers := (workers s)[w := W_ArchCheck p infos],
                 trace := trace s @ [Close w (ArchJob p)]\<rparr>)
      | W_ArchCheck p infos \<Rightarrow>
          Some (s\<lparr>workers := (workers s)[w :=
                 (if Arch.err (arches s ! p) = None then W_Files p infos 0 else W_Recv)]\<rparr>)
      | W_Files p infos k \<Rightarrow>
          if k < length (files (arches s ! p))
          then Some (s\<lparr>arches := updFile p k
                   (\<lambda>f. f\<lparr>info := infos (Join env [''sys'', OS (target (arches s ! p)), name f])\<rparr>)
                   (arches s),
                 workers := (workers s)[w := W_Send p infos k],
                 trace := trace s @ [Write w (FileJob p k) InfoF]\<rparr>)
          else Some (s\<lparr>workers := (workers s)[w := W_Recv]\<rparr>)
      | W_Send p infos k \<Rightarrow>
          if length (jobC s) < length (arches s)
          then Some (s\<lparr>jobC := jobC s @ [FileJob p k],
                 workers := (workers s)[w := W_Files p infos (Suc k)],
                 trace := trace s @ [Send w (FileJob p k)]\<rparr>)
          else None
      | W_File p k \<Rightarrow>
          (let f = the_file (arches s) p k;
               ((c, u, e), calls) = processFile env ex (arches s ! arch f) f in
           Some (s\<lparr>arches := updFile p k
                   (\<lambda>f. f\<lparr>file_consts := c, undeclared := u, File.err := e\<rparr>) (arches s),
             workers := (workers s)[w := W_FileClose p k],
             trace := trace s @ [Write w (FileJob p k) ConstsF, Write w (FileJob p k) UndeclaredF,
               Write w (FileJob p k) ErrF]\<rparr>))
      | W_FileClose p k \<Rightarrow>
          if File.done_ch (the_file (arches s) p k) then Some (s\<lparr>mainpc := M_Panic\<rparr>)
          else Some (s\<lparr>arches := updFile p k (\<lambda>f. f\<lparr>File.done_ch := True\<rparr>) (arches s),
                 workers := (workers s)[w := W_Recv],
                 trace := trace s @ [Close w (FileJob p k)]\<rparr>))"

text \<open>The reads of \<^verbatim>\<open>checkUnsupportedCalls\<close>: both maps of every file of every architecture.\<close>

definition check_reads :: "Arch list \<Rightarrow> event list" where
  "check_reads as =
     concat (map (\<lambda>p. concat (map (\<lambda>k. [Read (FileJob p k) ConstsF, Read (FileJob p k) UndeclaredF])
                                 [0..<length (files (as ! p))]))
               [0..<length as])"

text \<open>
  One step of main (the collector). A receive from a \<^verbatim>\<open>done\<close> channel is possible only
  once the channel is closed. In the loop of line 124 the scheduler's number \<open>n\<close> picks
  the entry visited next, since Go fixes no order for a range over a map.
\<close>

definition main_step ::
  "('ast, 'cf) Env \<Rightarrow> Flags \<Rightarrow> nat \<Rightarrow> 'cf state \<Rightarrow> 'cf state option" where
  "main_step env fl n s =
     (case mainpc s of
        M_Arch i \<Rightarrow>
          if i < length (arches s)
          then Some (s\<lparr>mainpc := M_WaitArch i,
                 trace := trace s @ [Print_generating (flagOS fl) (Arch (target (arches s ! i)))]\<rparr>)
          else Some (s\<lparr>mainpc := M_Write (constFiles s)\<rparr>)
      | M_WaitArch i \<Rightarrow>
          if Arch.done_ch (arches s ! i)
          then Some (s\<lparr>mainpc := M_ArchErr i, trace := trace s @ [Wait (ArchJob i)]\<rparr>)
          else None
      | M_ArchErr i \<Rightarrow>
          (case Arch.err (arches s ! i) of
             Some e \<Rightarrow>
               Some (s\<lparr>failed := True, mainpc := M_Arch (Suc i),
                 trace := trace s @ [Read (ArchJob i) ErrF, Print_arch_err e]\<rparr>)
           | None \<Rightarrow>
               Some (s\<lparr>mainpc := M_File i 0, trace := trace s @ [Read (ArchJob i) ErrF]\<rparr>))
      | M_File i k \<Rightarrow>
          if k < length (files (arches s ! i))
          then (if File.done_ch (the_file (arches s) i k)
                then Some (s\<lparr>mainpc := M_FileErr i k, trace := trace s @ [Wait (FileJob i k)]\<rparr>)
                else None)
          else Some (s\<lparr>mainpc := M_Arch (Suc i)\<rparr>)
      | M_FileErr i k \<Rightarrow>
          (let f = the_file (arches s) i k in
           case File.err f of
             Some e \<Rightarrow>
               Some (s\<lparr>failed := True, mainpc := M_File i (Suc k),
                 trace := trace s @ [Read (FileJob i k) ErrF, Print_file_err (name f) e]\<rparr>)
           | None \<Rightarrow>
               Some (s\<lparr>constFiles :=
                   AList.update (name f)
                     (AddArch env
                        (case map_of (constFiles s) (name f) of
                           None \<Rightarrow> NewConstFile env
                         | Some cf \<Rightarrow> cf)
                        (Arch (target (arches s ! arch f))) (file_consts f) (undeclared f))
                     (constFiles s),
                 mainpc := M_File i (Suc k),
                 trace := trace s @ [Read (FileJob i k) ErrF, Read (FileJob i k) ConstsF,
                                     Read (FileJob i k) UndeclaredF]\<rparr>))
      | M_Write todo \<Rightarrow>
          (if todo = [] then Some (s\<lparr>mainpc := M_Check\<rparr>)
           else if n < length todo
           then (let (file, cf) = todo ! n;
                     outname = Join env [''sys'', flagOS fl, file @ ''.const''];
                     data = Serialize env cf;
                     rest = take n todo @ drop (Suc n) todo in
                 if length data = 0
                 then Some (s\<lparr>mainpc := M_Write rest,
                        trace := trace s @ [Serialized file, Removed outname]\<rparr>)
                 else (case WriteFile env outname data of
                         Some e \<Rightarrow>
                           Some (s\<lparr>mainpc := M_Failf (''failed to write output file: '' @ e),
                             trace := trace s @ [Serialized file, Wrote outname data (Some e)]\<rparr>)
                       | None \<Rightarrow>
                           Some (s\<lparr>mainpc := M_Write rest,
                             trace := trace s @ [Serialized file, Wrote outname data None]\<rparr>)))
           else None)
      | M_Check \<Rightarrow>
          if \<not> failed s \<and> flagArch fl = []
          then Some (s\<lparr>failed := fst (checkUnsupportedCalls (arches s)),
                 mainpc := M_Cleanup 0,
                 trace := trace s @ [CallCheck] @ check_reads (arches s) @
                          map (\<lambda>(f, n). Print_unsupported f n)
                            (snd (checkUnsupportedCalls (arches s)))\<rparr>)
          else Some (s\<lparr>mainpc := M_Cleanup 0\<rparr>)
      | M_Cleanup i \<Rightarrow>
          if i < length (arches s)
          then (if build (arches s ! i)
                then Some (s\<lparr>mainpc := M_Cleanup (Suc i),
                       trace := trace s @ [RemovedAll (buildDir (arches s ! i))]\<rparr>)
                else Some (s\<lparr>mainpc := M_Cleanup (Suc i)\<rparr>))
          else Some (s\<lparr>mainpc := M_Exit (if failed s then 1 else 0)\<rparr>)
      | M_Exit c \<Rightarrow> None
      | M_Failf m \<Rightarrow> None
      | M_Panic \<Rightarrow> None)"

text \<open>
  The scheduler picks main or one of the \<^verbatim>\<open>GOMAXPROCS\<close> workers. Once the process has
  exited nothing runs any more.
\<close>

datatype sched = Main nat | Worker nat

definition step ::
  "('ast, 'cf) Env \<Rightarrow> Flags \<Rightarrow> Extractor \<Rightarrow> 'cf state \<Rightarrow> sched \<Rightarrow> 'cf state option" where
  "step env fl ex s t =
     (if terminated (mainpc s) then None
      else case t of
        Main n \<Rightarrow> main_step env fl n s
      | Worker w \<Rightarrow> if w < length (workers s) then worker_step env ex w s else None)"

fun run ::
  "('ast, 'cf) Env \<Rightarrow> Flags \<Rightarrow> Extractor \<Rightarrow> 'cf state \<Rightarrow> sched list \<Rightarrow> 'cf state option" where
  "run env fl ex s [] = Some s"
| "run env fl ex s (t # ts) =
     (case step env fl ex s t of
        None \<Rightarrow> None
      | Some s' \<Rightarrow> run env fl ex s' ts)"

text \<open>
  The state at line 97: every architecture is in the queue (lines 88 to 91) and the
  workers have been started (lines 93 to 95), each about to receive.
\<close>

definition init :: "('ast, 'cf) Env \<Rightarrow> Arch list \<Rightarrow> 'cf state" where
  "init env as = \<lparr> arches = as, jobC = map ArchJob [0..<length as],
     workers = replicate (GOMAXPROCS env) W_Recv, mainpc = M_Arch 0, failed = False,
     constFiles = [], trace = [] \<rparr>"

text \<open>
  Lines 64 to 86 of main: the fatal set-up errors (\<open>Inl\<close>, the message of
  \<^verbatim>\<open>tool.Fail\<close>), or the extractor and the architectures.
\<close>

definition main_setup :: "('ast, 'cf) Env \<Rightarrow> Flags \<Rightarrow> error + Extractor \<times> Arch list" where
  "main_setup env fl =
     (if flagBuild fl \<and> flagBuildDir fl \<noteq> []
      then Inl ''-build and -builddir is an invalid combination''
      else case extractors env (flagOS fl) of
        None \<Rightarrow> Inl (''unknown os: '' @ flagOS fl)
      | Some extractor \<Rightarrow>
          (case createArches env fl (flagOS fl) (archList env (flagOS fl) (flagArch fl)) (Args fl) of
             Inl e \<Rightarrow> Inl e
           | Inr as \<Rightarrow>
               if flagSourceDir fl = []
               then Inl (''provide path to kernel checkout via -sourcedir '' @
                         ''flag (or make extract SOURCEDIR)'')
               else (case prepare extractor (flagSourceDir fl) (flagBuild fl) as of
                       Some e \<Rightarrow> Inl e
                     | None \<Rightarrow> Inr (extractor, as))))"

text \<open>
  The whole program under a schedule: the state reached, \<open>None\<close> when set-up fails or
  the schedule asks a blocked or exited thread to move.
\<close>

definition pipeline :: "('ast, 'cf) Env \<Rightarrow> Flags \<Rightarrow> sched list \<Rightarrow> 'cf state option" where
  "pipeline env fl ts =
     (case main_setup env fl of
        Inl e \<Rightarrow> None
      | Inr (ex, as) \<Rightarrow> run env fl ex (init env as) ts)"

subsection \<open>Reachable states and the notions the invariants speak of\<close>

text \<open>
  \<open>reachable env fl ex as0 s\<close>: the state \<open>s\<close> is reached from the initial state of the
  architectures \<open>as0\<close> under some schedule.
\<close>

inductive reachable ::
  "('ast, 'cf) Env \<Rightarrow> Flags \<Rightarrow> Extractor \<Rightarrow> Arch list \<Rightarrow> 'cf state \<Rightarrow> bool"
  for env fl ex as0 where
    r_init: "reachable env fl ex as0 (init env as0)"
  | r_step: "reachable env fl ex as0 s \<Longrightarrow> step env fl ex s t = Some s' \<Longrightarrow>
             reachable env fl ex as0 s'"

text \<open>
  \<open>nfiles\<close> is \<^verbatim>\<open>len(arch.files)\<close>; a job is valid when its pointer is, and done when its
  channel is closed. \<open>static\<close> is the part of an architecture that is fixed when
  \<^verbatim>\<open>createArches\<close> returns: everything but the result fields and the channels.
\<close>

definition nfiles :: "Arch list \<Rightarrow> nat \<Rightarrow> nat" where
  "nfiles as p = length (files (as ! p))"

definition job_done :: "Arch list \<Rightarrow> job \<Rightarrow> bool" where
  "job_done as j = (case j of ArchJob p \<Rightarrow> Arch.done_ch (as ! p)
                    | FileJob p k \<Rightarrow> File.done_ch (the_file as p k))"

definition valid_job :: "Arch list \<Rightarrow> job \<Rightarrow> bool" where
  "valid_job as j = (case j of ArchJob p \<Rightarrow> p < length as
                     | FileJob p k \<Rightarrow> p < length as \<and> k < nfiles as p)"

definition static_file :: "File \<Rightarrow> nat \<times> string" where
  "static_file f = (arch f, name f)"

definition static :: "Arch \<Rightarrow> Target \<times> string \<times> string \<times> string \<times> bool \<times> (nat \<times> string) list" where
  "static a = (target a, sourceDir a, includeDirs a, buildDir a, build a, map static_file (files a))"

text \<open>
  Ownership. A job that has not been closed yet is owned by exactly one place: the
  queue, or the worker that received it. The file jobs of an architecture belong to the
  architecture job until the worker sends them (line 162), one by one. \<open>tokens\<close> is the
  multiset of all jobs so owned; \<open>inv1\<close> says that no job is owned twice, that an owned
  job is not closed, and what a worker's program counter implies.
\<close>

definition unsent :: "Arch list \<Rightarrow> nat \<Rightarrow> nat \<Rightarrow> job multiset" where
  "unsent as p k = mset (map (FileJob p) [k..<nfiles as p])"

definition expand :: "Arch list \<Rightarrow> job \<Rightarrow> job multiset" where
  "expand as j = (case j of ArchJob p \<Rightarrow> add_mset (ArchJob p) (unsent as p 0)
                  | FileJob p k \<Rightarrow> {#FileJob p k#})"

definition holds :: "Arch list \<Rightarrow> wpc \<Rightarrow> job multiset" where
  "holds as pc =
     (case pc of
        W_Recv \<Rightarrow> {#}
      | W_Arch p \<Rightarrow> expand as (ArchJob p)
      | W_ArchClose p i \<Rightarrow> expand as (ArchJob p)
      | W_ArchCheck p i \<Rightarrow> unsent as p 0
      | W_Files p i k \<Rightarrow> unsent as p k
      | W_Send p i k \<Rightarrow> unsent as p k
      | W_File p k \<Rightarrow> {#FileJob p k#}
      | W_FileClose p k \<Rightarrow> {#FileJob p k#})"

definition tokens :: "'cf state \<Rightarrow> job multiset" where
  "tokens s = sum_list (map (expand (arches s)) (jobC s)) +
              sum_list (map (holds (arches s)) (workers s))"

definition wpc_ok :: "Arch list \<Rightarrow> wpc \<Rightarrow> bool" where
  "wpc_ok as pc =
     (case pc of
        W_ArchCheck p i \<Rightarrow> p < length as \<and> Arch.done_ch (as ! p)
      | W_Files p i k \<Rightarrow> p < length as \<and> Arch.done_ch (as ! p) \<and> Arch.err (as ! p) = None
      | W_Send p i k \<Rightarrow> p < length as \<and> Arch.done_ch (as ! p) \<and> Arch.err (as ! p) = None \<and>
                         k < nfiles as p
      | W_File p k \<Rightarrow> Arch.done_ch (as ! p) \<and> Arch.err (as ! p) = None
      | W_FileClose p k \<Rightarrow> Arch.done_ch (as ! p) \<and> Arch.err (as ! p) = None
      | _ \<Rightarrow> True)"

definition inv1 :: "Arch list \<Rightarrow> 'cf state \<Rightarrow> bool" where
  "inv1 as0 s \<longleftrightarrow>
     map static (arches s) = map static as0 \<and>
     (\<forall>j. count (tokens s) j \<le> 1) \<and>
     (\<forall>j. j \<in># tokens s \<longrightarrow> valid_job (arches s) j \<and> \<not> job_done (arches s) j) \<and>
     (\<forall>pc \<in> set (workers s). wpc_ok (arches s) pc) \<and>
     (\<forall>p k. FileJob p k \<in> set (jobC s) \<longrightarrow>
        Arch.done_ch (arches s ! p) \<and> Arch.err (arches s ! p) = None) \<and>
     mainpc s \<noteq> M_Panic"

definition fresh :: "Arch list \<Rightarrow> bool" where
  "fresh as \<longleftrightarrow>
     (\<forall>p < length as. \<not> Arch.done_ch (as ! p) \<and>
        (\<forall>k < nfiles as p. \<not> File.done_ch (the_file as p k)))"

definition arch_drained :: "Arch list \<Rightarrow> nat \<Rightarrow> bool" where
  "arch_drained as p \<longleftrightarrow>
     Arch.done_ch (as ! p) \<and>
     (Arch.err (as ! p) = None \<longrightarrow> (\<forall>k < nfiles as p. File.done_ch (the_file as p k)))"

definition main_ok :: "'cf state \<Rightarrow> bool" where
  "main_ok s =
     (case mainpc s of
        M_Arch i \<Rightarrow> i \<le> length (arches s) \<and> (\<forall>p < i. arch_drained (arches s) p)
      | M_WaitArch i \<Rightarrow> i < length (arches s) \<and> (\<forall>p < i. arch_drained (arches s) p)
      | M_ArchErr i \<Rightarrow> i < length (arches s) \<and> (\<forall>p < i. arch_drained (arches s) p) \<and>
          Arch.done_ch (arches s ! i)
      | M_File i k \<Rightarrow> i < length (arches s) \<and> (\<forall>p < i. arch_drained (arches s) p) \<and>
          Arch.done_ch (arches s ! i) \<and> Arch.err (arches s ! i) = None \<and>
          k \<le> nfiles (arches s) i \<and> (\<forall>m < k. File.done_ch (the_file (arches s) i m))
      | M_FileErr i k \<Rightarrow> i < length (arches s) \<and> (\<forall>p < i. arch_drained (arches s) p) \<and>
          Arch.done_ch (arches s ! i) \<and> Arch.err (arches s ! i) = None \<and>
          k < nfiles (arches s) i \<and> (\<forall>m < Suc k. File.done_ch (the_file (arches s) i m))
      | M_Panic \<Rightarrow> True
      | _ \<Rightarrow> (\<forall>p < length (arches s). arch_drained (arches s) p))"

definition is_worker_event :: "event \<Rightarrow> bool" where
  "is_worker_event e = (case e of Recv w j \<Rightarrow> True | Send w j \<Rightarrow> True | Write w j f \<Rightarrow> True
                        | Close w j \<Rightarrow> True | _ \<Rightarrow> False)"

definition mev :: "event list \<Rightarrow> event list" where
  "mev tr = filter (\<lambda>e. \<not> is_worker_event e) tr"

type_synonym 'cf acc = "bool \<times> (string \<times> 'cf) list \<times> event list"

definition add_out :: "'cf acc \<Rightarrow> event list \<Rightarrow> 'cf acc" where
  "add_out acc es = (case acc of (fl, cfs, out) \<Rightarrow> (fl, cfs, out @ es))"

definition collect_file :: "('ast, 'cf) Env \<Rightarrow> Arch list \<Rightarrow> nat \<Rightarrow> 'cf acc \<Rightarrow> nat \<Rightarrow> 'cf acc" where
  "collect_file env as i acc k =
     (let f = the_file as i k in
      case acc of (fl, cfs, out) \<Rightarrow>
        (case File.err f of
           Some e \<Rightarrow>
             (True, cfs,
              out @ [Wait (FileJob i k), Read (FileJob i k) ErrF, Print_file_err (name f) e])
         | None \<Rightarrow>
             (fl,
              AList.update (name f)
                (AddArch env
                   (case map_of cfs (name f) of None \<Rightarrow> NewConstFile env | Some cf \<Rightarrow> cf)
                   (Arch (target (as ! arch f))) (file_consts f) (undeclared f))
                cfs,
              out @ [Wait (FileJob i k), Read (FileJob i k) ErrF, Read (FileJob i k) ConstsF,
                     Read (FileJob i k) UndeclaredF])))"

definition arch_head :: "string \<Rightarrow> Arch list \<Rightarrow> nat \<Rightarrow> event list" where
  "arch_head os as i =
     [Print_generating os (Arch (target (as ! i))), Wait (ArchJob i), Read (ArchJob i) ErrF]"

definition collect_arch ::
  "('ast, 'cf) Env \<Rightarrow> string \<Rightarrow> Arch list \<Rightarrow> 'cf acc \<Rightarrow> nat \<Rightarrow> 'cf acc" where
  "collect_arch env os as acc i =
     (case Arch.err (as ! i) of
        Some e \<Rightarrow>
          (case acc of (fl, cfs, out) \<Rightarrow> (True, cfs, out @ arch_head os as i @ [Print_arch_err e]))
      | None \<Rightarrow>
          foldl (collect_file env as i) (add_out acc (arch_head os as i)) [0..<nfiles as i])"

definition collect_upto :: "('ast, 'cf) Env \<Rightarrow> string \<Rightarrow> Arch list \<Rightarrow> nat \<Rightarrow> 'cf acc" where
  "collect_upto env os as i = foldl (collect_arch env os as) (False, [], []) [0..<i]"

definition collect :: "('ast, 'cf) Env \<Rightarrow> string \<Rightarrow> Arch list \<Rightarrow> 'cf acc" where
  "collect env os as = collect_upto env os as (length as)"

definition coll_ok :: "('ast, 'cf) Env \<Rightarrow> Flags \<Rightarrow> 'cf state \<Rightarrow> bool" where
  "coll_ok env fl s =
     (let as = arches s; os = flagOS fl; acc = (failed s, constFiles s, mev (trace s)) in
      case mainpc s of
        M_Arch i \<Rightarrow> acc = collect_upto env os as i
      | M_WaitArch i \<Rightarrow>
          acc = add_out (collect_upto env os as i) [Print_generating os (Arch (target (as ! i)))]
      | M_ArchErr i \<Rightarrow>
          acc = add_out (collect_upto env os as i)
                  [Print_generating os (Arch (target (as ! i))), Wait (ArchJob i)]
      | M_File i k \<Rightarrow>
          acc = foldl (collect_file env as i)
                  (add_out (collect_upto env os as i) (arch_head os as i)) [0..<k]
      | M_FileErr i k \<Rightarrow>
          acc = add_out (foldl (collect_file env as i)
                           (add_out (collect_upto env os as i) (arch_head os as i)) [0..<k])
                  [Wait (FileJob i k)]
      | _ \<Rightarrow> True)"

text \<open>Back pointers: \<^verbatim>\<open>f.arch\<close> is the architecture whose list holds \<open>f\<close>.\<close>

definition back_ok :: "Arch list \<Rightarrow> bool" where
  "back_ok as \<longleftrightarrow> (\<forall>p < length as. \<forall>k < nfiles as p. arch (the_file as p k) = p)"

definition outname :: "('ast, 'cf) Env \<Rightarrow> Flags \<Rightarrow> string \<Rightarrow> string" where
  "outname env fl fname = Join env [''sys'', flagOS fl, fname @ ''.const'']"

definition write_events :: "('ast, 'cf) Env \<Rightarrow> Flags \<Rightarrow> string \<times> 'cf \<Rightarrow> event list" where
  "write_events env fl x =
     (if length (Serialize env (snd x)) = 0
      then [Serialized (fst x), Removed (outname env fl (fst x))]
      else [Serialized (fst x),
            Wrote (outname env fl (fst x)) (Serialize env (snd x))
              (WriteFile env (outname env fl (fst x)) (Serialize env (snd x)))])"

definition write_fails :: "('ast, 'cf) Env \<Rightarrow> Flags \<Rightarrow> string \<times> 'cf \<Rightarrow> bool" where
  "write_fails env fl x \<longleftrightarrow>
     length (Serialize env (snd x)) \<noteq> 0 \<and>
     WriteFile env (outname env fl (fst x)) (Serialize env (snd x)) \<noteq> None"

definition check_runs :: "Flags \<Rightarrow> bool \<Rightarrow> bool" where
  "check_runs fl f0 \<longleftrightarrow> \<not> f0 \<and> flagArch fl = []"

definition check_events :: "Flags \<Rightarrow> Arch list \<Rightarrow> bool \<Rightarrow> event list" where
  "check_events fl as f0 =
     (if check_runs fl f0
      then [CallCheck] @ check_reads as @
           map (\<lambda>(f, n). Print_unsupported f n) (snd (checkUnsupportedCalls as))
      else [])"

definition check_failed :: "Flags \<Rightarrow> Arch list \<Rightarrow> bool \<Rightarrow> bool" where
  "check_failed fl as f0 = (if check_runs fl f0 then fst (checkUnsupportedCalls as) else f0)"

definition cleanup_events :: "Arch list \<Rightarrow> nat \<Rightarrow> event list" where
  "cleanup_events as i = map (\<lambda>a. RemovedAll (buildDir a)) (filter build (take i as))"

definition late_ok :: "('ast, 'cf) Env \<Rightarrow> Flags \<Rightarrow> 'cf state \<Rightarrow> bool" where
  "late_ok env fl s =
     (let as = arches s; f0 = fst (collect env (flagOS fl) as);
          cfs0 = fst (snd (collect env (flagOS fl) as));
          out0 = snd (snd (collect env (flagOS fl) as)) in
      case mainpc s of
        M_Write todo \<Rightarrow>
          failed s = f0 \<and> constFiles s = cfs0 \<and>
          (\<exists>dn. mset dn + mset todo = mset cfs0 \<and> (\<forall>x \<in> set dn. \<not> write_fails env fl x) \<and>
                mev (trace s) = out0 @ concat (map (write_events env fl) dn))
      | M_Failf m \<Rightarrow>
          failed s = f0 \<and> constFiles s = cfs0 \<and>
          (\<exists>dn x. mset dn + {#x#} \<subseteq># mset cfs0 \<and> (\<forall>y \<in> set dn. \<not> write_fails env fl y) \<and>
                  write_fails env fl x \<and>
                  mev (trace s) = out0 @ concat (map (write_events env fl) dn) @ write_events env fl x)
      | M_Check \<Rightarrow>
          failed s = f0 \<and> constFiles s = cfs0 \<and>
          (\<exists>dn. mset dn = mset cfs0 \<and> (\<forall>x \<in> set dn. \<not> write_fails env fl x) \<and>
                mev (trace s) = out0 @ concat (map (write_events env fl) dn))
      | M_Cleanup i \<Rightarrow>
          i \<le> length as \<and> failed s = check_failed fl as f0 \<and> constFiles s = cfs0 \<and>
          (\<exists>dn. mset dn = mset cfs0 \<and> (\<forall>x \<in> set dn. \<not> write_fails env fl x) \<and>
                mev (trace s) = out0 @ concat (map (write_events env fl) dn) @
                                check_events fl as f0 @ cleanup_events as i)
      | M_Exit c \<Rightarrow>
          c = (if check_failed fl as f0 then 1 else 0) \<and> constFiles s = cfs0 \<and>
          (\<exists>dn. mset dn = mset cfs0 \<and> (\<forall>x \<in> set dn. \<not> write_fails env fl x) \<and>
                mev (trace s) = out0 @ concat (map (write_events env fl) dn) @
                                check_events fl as f0 @ cleanup_events as (length as))
      | _ \<Rightarrow> True)"

definition main_spec :: "('ast, 'cf) Env \<Rightarrow> Flags \<Rightarrow> 'cf state \<Rightarrow> bool" where
  "main_spec env fl s \<longleftrightarrow> main_ok s \<and> coll_ok env fl s \<and> late_ok env fl s"

definition no_job_error :: "Arch list \<Rightarrow> bool" where
  "no_job_error as \<longleftrightarrow>
     (\<forall>p < length as. Arch.err (as ! p) = None \<and>
        (\<forall>k < nfiles as p. File.err (the_file as p k) = None))"

definition file_events :: "Arch list \<Rightarrow> nat \<Rightarrow> nat \<Rightarrow> event list" where
  "file_events as p k =
     (case File.err (the_file as p k) of
        Some e \<Rightarrow> [Wait (FileJob p k), Read (FileJob p k) ErrF,
                   Print_file_err (name (the_file as p k)) e]
      | None \<Rightarrow> [Wait (FileJob p k), Read (FileJob p k) ErrF, Read (FileJob p k) ConstsF,
                 Read (FileJob p k) UndeclaredF])"

definition arch_events :: "string \<Rightarrow> Arch list \<Rightarrow> nat \<Rightarrow> event list" where
  "arch_events os as p =
     arch_head os as p @
     (case Arch.err (as ! p) of
        Some e \<Rightarrow> [Print_arch_err e]
      | None \<Rightarrow> concat (map (file_events as p) [0..<nfiles as p]))"

definition good_files :: "Arch list \<Rightarrow> (nat \<times> nat) list" where
  "good_files as =
     concat (map (\<lambda>p. if Arch.err (as ! p) = None
                       then map (Pair p) (filter (\<lambda>k. File.err (the_file as p k) = None)
                                            [0..<nfiles as p])
                       else [])
               [0..<length as])"

definition add_table ::
  "('ast, 'cf) Env \<Rightarrow> Arch list \<Rightarrow> (string \<times> 'cf) list \<Rightarrow> nat \<times> nat \<Rightarrow> (string \<times> 'cf) list" where
  "add_table env as cfs pk =
     (let f = the_file as (fst pk) (snd pk) in
      AList.update (name f)
        (AddArch env (case map_of cfs (name f) of None \<Rightarrow> NewConstFile env | Some cf \<Rightarrow> cf)
           (Arch (target (as ! arch f))) (file_consts f) (undeclared f))
        cfs)"

definition resolved_names :: "Arch list \<Rightarrow> string set" where
  "resolved_names as = {n. \<exists>a \<in> set as. \<exists>f \<in> set (files a). n \<in> fst ` set (file_consts f)}"

definition undeclared_names :: "Arch list \<Rightarrow> string set" where
  "undeclared_names as = {n. \<exists>a \<in> set as. \<exists>f \<in> set (files a). n \<in> fst ` set (undeclared f)}"

definition is_coll :: "event \<Rightarrow> bool" where
  "is_coll e = (case e of Wait j \<Rightarrow> True | Read j f \<Rightarrow> True | Print_generating a b \<Rightarrow> True
                | Print_arch_err m \<Rightarrow> True | Print_file_err f m \<Rightarrow> True | _ \<Rightarrow> False)"

definition is_fs :: "event \<Rightarrow> bool" where
  "is_fs e = (case e of Serialized f \<Rightarrow> True | Removed f \<Rightarrow> True | Wrote f d r \<Rightarrow> True | _ \<Rightarrow> False)"

definition is_wait :: "event \<Rightarrow> bool" where
  "is_wait e = (case e of Wait j \<Rightarrow> True | _ \<Rightarrow> False)"

definition is_rm :: "event \<Rightarrow> bool" where
  "is_rm e = (case e of RemovedAll d \<Rightarrow> True | _ \<Rightarrow> False)"

definition is_diag :: "event \<Rightarrow> bool" where
  "is_diag e = (case e of Print_generating a b \<Rightarrow> True | Print_arch_err m \<Rightarrow> True
                | Print_file_err f m \<Rightarrow> True | _ \<Rightarrow> False)"

text \<open>The order in which main receives from the done channels when nothing blocks for ever.\<close>

definition drain_order :: "Arch list \<Rightarrow> event list" where
  "drain_order as =
     concat (map (\<lambda>p. Wait (ArchJob p) #
                       (if Arch.err (as ! p) = None
                        then map (\<lambda>k. Wait (FileJob p k)) [0..<nfiles as p] else []))
               [0..<length as])"

text \<open>The lines main prints in the loop of line 101 in that case.\<close>

definition diag_lines :: "string \<Rightarrow> Arch list \<Rightarrow> event list" where
  "diag_lines os as =
     concat (map (\<lambda>p. Print_generating os (Arch (target (as ! p))) #
                       (case Arch.err (as ! p) of
                          Some e \<Rightarrow> [Print_arch_err e]
                        | None \<Rightarrow>
                            concat (map (\<lambda>k. case File.err (the_file as p k) of
                                                Some e \<Rightarrow> [Print_file_err (name (the_file as p k)) e]
                                              | None \<Rightarrow> [])
                                      [0..<nfiles as p])))
               [0..<length as])"

definition collected :: "'cf mpc \<Rightarrow> bool" where
  "collected pc = (case pc of M_Write todo \<Rightarrow> True | M_Check \<Rightarrow> True | M_Cleanup i \<Rightarrow> True
                   | M_Exit c \<Rightarrow> True | M_Failf m \<Rightarrow> True | _ \<Rightarrow> False)"

definition written :: "'cf mpc \<Rightarrow> bool" where
  "written pc = (case pc of M_Check \<Rightarrow> True | M_Cleanup i \<Rightarrow> True | M_Exit c \<Rightarrow> True | _ \<Rightarrow> False)"

text \<open>
  What a history says: the job a worker is executing is the last one it received; a job
  is closed, or sent, when some worker has closed its channel, or sent it.
\<close>

definition cur_job :: "nat \<Rightarrow> event list \<Rightarrow> job option" where
  "cur_job w tr =
     foldl (\<lambda>r e. case e of Recv v j \<Rightarrow> if v = w then Some j else r | _ \<Rightarrow> r) None tr"

definition closed :: "event list \<Rightarrow> job \<Rightarrow> bool" where
  "closed tr j = list_ex (\<lambda>e. case e of Close w j' \<Rightarrow> j' = j | _ \<Rightarrow> False) tr"

definition sent :: "event list \<Rightarrow> job \<Rightarrow> bool" where
  "sent tr j = list_ex (\<lambda>e. case e of Send w j' \<Rightarrow> j' = j | _ \<Rightarrow> False) tr"

text \<open>
  \<open>ok_event pre e\<close>: the event \<open>e\<close> is in order after the history \<open>pre\<close>.
\<close>

definition ok_event :: "event list \<Rightarrow> event \<Rightarrow> bool" where
  "ok_event pre e =
     (case e of
        Recv w j \<Rightarrow> (case j of ArchJob p \<Rightarrow> True | FileJob p k \<Rightarrow> sent pre j)
      | Send w j \<Rightarrow>
          (case j of
             ArchJob p \<Rightarrow> False
           | FileJob p k \<Rightarrow>
               cur_job w pre = Some (ArchJob p) \<and> Close w (ArchJob p) \<in> set pre \<and>
               Write w j InfoF \<in> set pre \<and> \<not> sent pre j)
      | Write w j f \<Rightarrow>
          (case f of
             InfoF \<Rightarrow>
               (case j of
                  ArchJob p \<Rightarrow> False
                | FileJob p k \<Rightarrow>
                    cur_job w pre = Some (ArchJob p) \<and> Close w (ArchJob p) \<in> set pre \<and>
                    \<not> sent pre j)
           | _ \<Rightarrow> cur_job w pre = Some j \<and> \<not> closed pre j)
      | Close w j \<Rightarrow>
          cur_job w pre = Some j \<and> \<not> closed pre j \<and> Write w j ErrF \<in> set pre \<and>
          (case j of
             ArchJob p \<Rightarrow> True
           | FileJob p k \<Rightarrow> Write w j ConstsF \<in> set pre \<and> Write w j UndeclaredF \<in> set pre)
      | Wait j \<Rightarrow> closed pre j
      | Read j f \<Rightarrow> Wait j \<in> set pre
      | _ \<Rightarrow> True)"

fun timed :: "event list \<Rightarrow> event list \<Rightarrow> bool" where
  "timed pre [] \<longleftrightarrow> True"
| "timed pre (e # es) \<longleftrightarrow> ok_event pre e \<and> timed (pre @ [e]) es"

definition well_timed :: "event list \<Rightarrow> bool" where
  "well_timed tr = timed [] tr"

text \<open>
  The file jobs that are still to be sent: those of an architecture job in the queue or
  held by a worker, from the worker's position in the loop of line 160 on.
\<close>

definition owed :: "Arch list \<Rightarrow> job \<Rightarrow> job multiset" where
  "owed as j = (case j of ArchJob p \<Rightarrow> unsent as p 0 | FileJob p k \<Rightarrow> {#})"

definition owes :: "Arch list \<Rightarrow> wpc \<Rightarrow> job multiset" where
  "owes as pc =
     (case pc of
        W_Arch p \<Rightarrow> unsent as p 0
      | W_ArchClose p i \<Rightarrow> unsent as p 0
      | W_ArchCheck p i \<Rightarrow> unsent as p 0
      | W_Files p i k \<Rightarrow> unsent as p k
      | W_Send p i k \<Rightarrow> unsent as p k
      | _ \<Rightarrow> {#})"

definition pending :: "'cf state \<Rightarrow> job multiset" where
  "pending s = sum_list (map (owed (arches s)) (jobC s)) +
               sum_list (map (owes (arches s)) (workers s))"

text \<open>What a worker's program counter says about the history.\<close>

definition wlink :: "event list \<Rightarrow> nat \<Rightarrow> wpc \<Rightarrow> bool" where
  "wlink tr w pc =
     (case pc of
        W_Recv \<Rightarrow> True
      | W_Arch p \<Rightarrow> cur_job w tr = Some (ArchJob p)
      | W_ArchClose p i \<Rightarrow> cur_job w tr = Some (ArchJob p) \<and> Write w (ArchJob p) ErrF \<in> set tr
      | W_ArchCheck p i \<Rightarrow> cur_job w tr = Some (ArchJob p) \<and> Close w (ArchJob p) \<in> set tr
      | W_Files p i k \<Rightarrow> cur_job w tr = Some (ArchJob p) \<and> Close w (ArchJob p) \<in> set tr
      | W_Send p i k \<Rightarrow> cur_job w tr = Some (ArchJob p) \<and> Close w (ArchJob p) \<in> set tr \<and>
                         Write w (FileJob p k) InfoF \<in> set tr
      | W_File p k \<Rightarrow> cur_job w tr = Some (FileJob p k)
      | W_FileClose p k \<Rightarrow> cur_job w tr = Some (FileJob p k) \<and>
          Write w (FileJob p k) ConstsF \<in> set tr \<and> Write w (FileJob p k) UndeclaredF \<in> set tr \<and>
          Write w (FileJob p k) ErrF \<in> set tr)"

definition tlink :: "'cf state \<Rightarrow> bool" where
  "tlink s \<longleftrightarrow>
     (\<forall>j. valid_job (arches s) j \<longrightarrow> closed (trace s) j = job_done (arches s) j) \<and>
     (\<forall>w < length (workers s). wlink (trace s) w (workers s ! w)) \<and>
     (\<forall>p k. FileJob p k \<in> set (jobC s) \<longrightarrow> sent (trace s) (FileJob p k)) \<and>
     (\<forall>j. sent (trace s) j \<longrightarrow> j \<notin># pending s) \<and>
     (\<forall>w p k. Send w (FileJob p k) \<in> set (trace s) \<or> Write w (FileJob p k) InfoF \<in> set (trace s) \<longrightarrow>
        p < length (arches s) \<and> Arch.done_ch (arches s ! p) \<and> Arch.err (arches s ! p) = None)"

subsection \<open>An example configuration\<close>

text \<open>
  A small concrete environment on which the theorems below are instantiated: three
  known architectures, of which \<open>arm\<close> fails its preparation; a backend that resolves
  every constant on amd64, only \<open>X\<close> elsewhere and \<open>U\<close> nowhere, and fails on a file that
  references \<open>E\<close>; tables that record the calls of \<^verbatim>\<open>AddArch\<close>; and a \<^verbatim>\<open>WriteFile\<close> that
  fails when \<open>wfail\<close> is set.
\<close>

definition ex_Join :: "string list \<Rightarrow> string" where
  "ex_Join xs = (case xs of [] \<Rightarrow> [] | y # ys \<Rightarrow> foldl (\<lambda>a b. a @ ''/'' @ b) y ys)"

definition ex_resolves :: "string \<Rightarrow> string \<Rightarrow> bool" where
  "ex_resolves a c \<longleftrightarrow> c \<noteq> ''U'' \<and> (a = ''amd64'' \<or> c = ''X'')"

definition ex_windows :: Extractor where
  "ex_windows = \<lparr>
     prepare = (\<lambda>src b as. None),
     prepareArch = (\<lambda>a. if Arch (target a) = ''arm'' then Some ''no headers for arm'' else None),
     processFile = (\<lambda>a i.
       if ''E'' \<in> set (Consts i) then ([], [], Some ''compile error'')
       else (map (\<lambda>c. (c, 1)) (filter (ex_resolves (Arch (target a))) (Consts i)),
             map (\<lambda>c. (c, True)) (filter (\<lambda>c. \<not> ex_resolves (Arch (target a)) c) (Consts i)),
             None)) \<rparr>"

definition ex_env :: "nat \<Rightarrow> string list \<Rightarrow> bool \<Rightarrow>
    (unit, (string \<times> ConstMap \<times> BoolMap) list) Env" where
  "ex_env n archs wfail = \<lparr>
     GOMAXPROCS = n,
     targets_List = (\<lambda>os. archs),
     targets_Get = (\<lambda>os a. if a \<in> set [''386'', ''amd64'', ''arm'']
                             then Some \<lparr>OS = os, Arch = a\<rparr> else None),
     ParseGlob = (\<lambda>g. ([], Some ())),
     FileList = (\<lambda>d os. ([], Some
       [(''b.txt'', \<lparr>NoExtract = False, SupportsArch = (\<lambda>a. True)\<rparr>),
        (''a.txt'', \<lparr>NoExtract = False, SupportsArch = (\<lambda>a. a = ''amd64'')\<rparr>),
        (''c.txt'', \<lparr>NoExtract = True, SupportsArch = (\<lambda>a. True)\<rparr>)])),
     ExtractConsts = (\<lambda>d t. ([], Some (map_of
       [(''sys/windows/a.txt'', \<lparr>Consts = [''X'', ''Y'']\<rparr>),
        (''sys/windows/b.txt'', \<lparr>Consts = [''Z'']\<rparr>),
        (''sys/windows/e.txt'', \<lparr>Consts = [''E'']\<rparr>),
        (''sys/windows/n.txt'', \<lparr>Consts = []\<rparr>),
        (''sys/windows/u.txt'', \<lparr>Consts = [''U'']\<rparr>)]))),
     windows = ex_windows,
     TempDir = (\<lambda>n. Inr (''/tmp/syzkaller-kernel-build'' @ replicate (Suc n) (CHR ''0''))),
     Join = ex_Join,
     NewConstFile = [],
     AddArch = (\<lambda>cf a c u. cf @ [(a, c, u)]),
     Serialize = (\<lambda>cf. concat (map (\<lambda>(a, c, u). concat (map (\<lambda>(n, v). n @ ''_'' @ a @ '';'') c)) cf)),
     WriteFile = (\<lambda>path data. if wfail then Some ''permission denied'' else None) \<rparr>"

definition ex_flags :: "string \<Rightarrow> bool \<Rightarrow> string list \<Rightarrow> Flags" where
  "ex_flags archs b fs = \<lparr> flagOS = ''windows'', flagBuild = b, flagSourceDir = ''/src'',
     flagIncludes = [], flagBuildDir = [], flagArch = archs, Args = fs \<rparr>"

definition ex_arch :: Arch where
  "ex_arch = \<lparr> target = \<lparr>OS = ''windows'', Arch = ''amd64''\<rparr>, sourceDir = ''/src'',
     includeDirs = [], buildDir = ''/src'', build = False, files = [], err = None,
     done_ch = False \<rparr>"

text \<open>A schedule given by its runs: \<open>(n, t)\<close> lets the thread \<open>t\<close> take \<open>n\<close> steps.\<close>

definition ex_sched :: "(nat \<times> sched) list \<Rightarrow> sched list" where
  "ex_sched rl = concat (map (\<lambda>(n, t). replicate n t) rl)"

section \<open>Proofs\<close>

subsection \<open>The steps, case by case\<close>

lemma worker_step_cases [consumes 1, case_names recv arch archclose_panic archclose archcheck
    files_next files_end send fileproc fileclose_panic fileclose]:
  assumes "worker_step env ex w s = Some s'"
  obtains
    (recv) j js where "workers s ! w = W_Recv" "jobC s = j # js"
      "s' = s\<lparr>jobC := js,
                 workers := (workers s)[w := (case j of ArchJob p \<Rightarrow> W_Arch p | FileJob p k \<Rightarrow> W_File p k)],
                 trace := trace s @ [Recv w j]\<rparr>"
  | (arch) p where "workers s ! w = W_Arch p"
      "s' = s\<lparr>arches := updArch p (\<lambda>a. a\<lparr>Arch.err := snd (processArch env ex (arches s ! p))\<rparr>) (arches s),
             workers := (workers s)[w := W_ArchClose p (fst (processArch env ex (arches s ! p)))],
             trace := trace s @ [Write w (ArchJob p) ErrF]\<rparr>"
  | (archclose_panic) p infos where "workers s ! w = W_ArchClose p infos"
      "Arch.done_ch (arches s ! p)" "s' = s\<lparr>mainpc := M_Panic\<rparr>"
  | (archclose) p infos where "workers s ! w = W_ArchClose p infos"
      "\<not> Arch.done_ch (arches s ! p)"
      "s' = s\<lparr>arches := updArch p (\<lambda>a. a\<lparr>Arch.done_ch := True\<rparr>) (arches s),
                 workers := (workers s)[w := W_ArchCheck p infos],
                 trace := trace s @ [Close w (ArchJob p)]\<rparr>"
  | (archcheck) p infos where "workers s ! w = W_ArchCheck p infos"
      "s' = s\<lparr>workers := (workers s)[w :=
                 (if Arch.err (arches s ! p) = None then W_Files p infos 0 else W_Recv)]\<rparr>"
  | (files_next) p infos k where "workers s ! w = W_Files p infos k"
      "k < length (files (arches s ! p))"
      "s' = s\<lparr>arches := updFile p k
                   (\<lambda>f. f\<lparr>info := infos (Join env [''sys'', OS (target (arches s ! p)), name f])\<rparr>)
                   (arches s),
                 workers := (workers s)[w := W_Send p infos k],
                 trace := trace s @ [Write w (FileJob p k) InfoF]\<rparr>"
  | (files_end) p infos k where "workers s ! w = W_Files p infos k"
      "\<not> k < length (files (arches s ! p))"
      "s' = s\<lparr>workers := (workers s)[w := W_Recv]\<rparr>"
  | (send) p infos k where "workers s ! w = W_Send p infos k"
      "length (jobC s) < length (arches s)"
      "s' = s\<lparr>jobC := jobC s @ [FileJob p k],
                 workers := (workers s)[w := W_Files p infos (Suc k)],
                 trace := trace s @ [Send w (FileJob p k)]\<rparr>"
  | (fileproc) p k where "workers s ! w = W_File p k"
      "s' = s\<lparr>arches := updFile p k
                   (\<lambda>f. f\<lparr>file_consts := fst (fst (processFile env ex (arches s ! arch (the_file (arches s) p k)) (the_file (arches s) p k))),
                          undeclared := fst (snd (fst (processFile env ex (arches s ! arch (the_file (arches s) p k)) (the_file (arches s) p k)))),
                          File.err := snd (snd (fst (processFile env ex (arches s ! arch (the_file (arches s) p k)) (the_file (arches s) p k))))\<rparr>) (arches s),
             workers := (workers s)[w := W_FileClose p k],
             trace := trace s @ [Write w (FileJob p k) ConstsF, Write w (FileJob p k) UndeclaredF,
               Write w (FileJob p k) ErrF]\<rparr>"
  | (fileclose_panic) p k where "workers s ! w = W_FileClose p k"
      "File.done_ch (the_file (arches s) p k)" "s' = s\<lparr>mainpc := M_Panic\<rparr>"
  | (fileclose) p k where "workers s ! w = W_FileClose p k"
      "\<not> File.done_ch (the_file (arches s) p k)"
      "s' = s\<lparr>arches := updFile p k (\<lambda>f. f\<lparr>File.done_ch := True\<rparr>) (arches s),
                 workers := (workers s)[w := W_Recv],
                 trace := trace s @ [Close w (FileJob p k)]\<rparr>"
proof (cases "workers s ! w")
  case W_Recv
  with assms recv show ?thesis
    by (auto simp: worker_step_def split: list.splits)
next
  case (W_Arch p)
  with assms arch show ?thesis
    by (auto simp: worker_step_def Let_def split: prod.splits)
next
  case (W_ArchClose p infos)
  with assms archclose_panic archclose show ?thesis
    by (auto simp: worker_step_def split: if_splits)
next
  case (W_ArchCheck p infos)
  with assms archcheck show ?thesis
    by (auto simp: worker_step_def)
next
  case (W_Files p infos k)
  with assms files_next files_end show ?thesis
    by (auto simp: worker_step_def split: if_splits)
next
  case (W_Send p infos k)
  with assms send show ?thesis
    by (auto simp: worker_step_def split: if_splits)
next
  case (W_File p k)
  with assms fileproc show ?thesis
    by (auto simp: worker_step_def Let_def split: prod.splits)
next
  case (W_FileClose p k)
  with assms fileclose_panic fileclose show ?thesis
    by (auto simp: worker_step_def split: if_splits)
qed

lemma main_step_cases [consumes 1, case_names arch_next arch_end wait_arch arch_err arch_ok
    file_wait file_end file_err file_ok write_end write_remove write_fail write_ok
    check_run check_skip cleanup_rm cleanup_skip cleanup_end]:
  assumes "main_step env fl n s = Some s'"
  obtains
    (arch_next) i where "mainpc s = M_Arch i" "i < length (arches s)"
      "s' = s\<lparr>mainpc := M_WaitArch i,
                 trace := trace s @ [Print_generating (flagOS fl) (Arch (target (arches s ! i)))]\<rparr>"
  | (arch_end) i where "mainpc s = M_Arch i" "\<not> i < length (arches s)"
      "s' = s\<lparr>mainpc := M_Write (constFiles s)\<rparr>"
  | (wait_arch) i where "mainpc s = M_WaitArch i" "Arch.done_ch (arches s ! i)"
      "s' = s\<lparr>mainpc := M_ArchErr i, trace := trace s @ [Wait (ArchJob i)]\<rparr>"
  | (arch_err) i e where "mainpc s = M_ArchErr i" "Arch.err (arches s ! i) = Some e"
      "s' = s\<lparr>failed := True, mainpc := M_Arch (Suc i),
                 trace := trace s @ [Read (ArchJob i) ErrF, Print_arch_err e]\<rparr>"
  | (arch_ok) i where "mainpc s = M_ArchErr i" "Arch.err (arches s ! i) = None"
      "s' = s\<lparr>mainpc := M_File i 0, trace := trace s @ [Read (ArchJob i) ErrF]\<rparr>"
  | (file_wait) i k where "mainpc s = M_File i k" "k < length (files (arches s ! i))"
      "File.done_ch (the_file (arches s) i k)"
      "s' = s\<lparr>mainpc := M_FileErr i k, trace := trace s @ [Wait (FileJob i k)]\<rparr>"
  | (file_end) i k where "mainpc s = M_File i k" "\<not> k < length (files (arches s ! i))"
      "s' = s\<lparr>mainpc := M_Arch (Suc i)\<rparr>"
  | (file_err) i k e where "mainpc s = M_FileErr i k"
      "File.err (the_file (arches s) i k) = Some e"
      "s' = s\<lparr>failed := True, mainpc := M_File i (Suc k),
                 trace := trace s @ [Read (FileJob i k) ErrF,
                                     Print_file_err (name (the_file (arches s) i k)) e]\<rparr>"
  | (file_ok) i k where "mainpc s = M_FileErr i k"
      "File.err (the_file (arches s) i k) = None"
      "s' = s\<lparr>constFiles :=
                   AList.update (name (the_file (arches s) i k))
                     (AddArch env
                        (case map_of (constFiles s) (name (the_file (arches s) i k)) of
                           None \<Rightarrow> NewConstFile env
                         | Some cf \<Rightarrow> cf)
                        (Arch (target (arches s ! arch (the_file (arches s) i k))))
                        (file_consts (the_file (arches s) i k))
                        (undeclared (the_file (arches s) i k)))
                     (constFiles s),
                 mainpc := M_File i (Suc k),
                 trace := trace s @ [Read (FileJob i k) ErrF, Read (FileJob i k) ConstsF,
                                     Read (FileJob i k) UndeclaredF]\<rparr>"
  | (write_end) "mainpc s = M_Write []" "s' = s\<lparr>mainpc := M_Check\<rparr>"
  | (write_remove) todo fname cf where "mainpc s = M_Write todo" "n < length todo"
      "todo ! n = (fname, cf)" "length (Serialize env cf) = 0"
      "s' = s\<lparr>mainpc := M_Write (take n todo @ drop (Suc n) todo),
                 trace := trace s @ [Serialized fname,
                   Removed (Join env [''sys'', flagOS fl, fname @ ''.const''])]\<rparr>"
  | (write_fail) todo fname cf e where "mainpc s = M_Write todo" "n < length todo"
      "todo ! n = (fname, cf)" "length (Serialize env cf) \<noteq> 0"
      "WriteFile env (Join env [''sys'', flagOS fl, fname @ ''.const'']) (Serialize env cf) = Some e"
      "s' = s\<lparr>mainpc := M_Failf (''failed to write output file: '' @ e),
                 trace := trace s @ [Serialized fname,
                   Wrote (Join env [''sys'', flagOS fl, fname @ ''.const'']) (Serialize env cf) (Some e)]\<rparr>"
  | (write_ok) todo fname cf where "mainpc s = M_Write todo" "n < length todo"
      "todo ! n = (fname, cf)" "length (Serialize env cf) \<noteq> 0"
      "WriteFile env (Join env [''sys'', flagOS fl, fname @ ''.const'']) (Serialize env cf) = None"
      "s' = s\<lparr>mainpc := M_Write (take n todo @ drop (Suc n) todo),
                 trace := trace s @ [Serialized fname,
                   Wrote (Join env [''sys'', flagOS fl, fname @ ''.const'']) (Serialize env cf) None]\<rparr>"
  | (check_run) "mainpc s = M_Check" "\<not> failed s" "flagArch fl = []"
      "s' = s\<lparr>failed := fst (checkUnsupportedCalls (arches s)),
                 mainpc := M_Cleanup 0,
                 trace := trace s @ [CallCheck] @ check_reads (arches s) @
                          map (\<lambda>(f, n). Print_unsupported f n)
                            (snd (checkUnsupportedCalls (arches s)))\<rparr>"
  | (check_skip) "mainpc s = M_Check" "\<not> (\<not> failed s \<and> flagArch fl = [])"
      "s' = s\<lparr>mainpc := M_Cleanup 0\<rparr>"
  | (cleanup_rm) i where "mainpc s = M_Cleanup i" "i < length (arches s)" "build (arches s ! i)"
      "s' = s\<lparr>mainpc := M_Cleanup (Suc i),
                 trace := trace s @ [RemovedAll (buildDir (arches s ! i))]\<rparr>"
  | (cleanup_skip) i where "mainpc s = M_Cleanup i" "i < length (arches s)"
      "\<not> build (arches s ! i)" "s' = s\<lparr>mainpc := M_Cleanup (Suc i)\<rparr>"
  | (cleanup_end) i where "mainpc s = M_Cleanup i" "\<not> i < length (arches s)"
      "s' = s\<lparr>mainpc := M_Exit (if failed s then 1 else 0)\<rparr>"
proof (cases "mainpc s")
  case (M_Arch i)
  with assms arch_next arch_end show ?thesis
    by (auto simp: main_step_def split: if_splits)
next
  case (M_WaitArch i)
  with assms wait_arch show ?thesis
    by (auto simp: main_step_def split: if_splits)
next
  case (M_ArchErr i)
  with assms arch_err arch_ok show ?thesis
    by (auto simp: main_step_def split: option.splits)
next
  case (M_File i k)
  with assms file_wait file_end show ?thesis
    by (auto simp: main_step_def split: if_splits)
next
  case (M_FileErr i k)
  with assms file_err file_ok show ?thesis
    by (auto simp: main_step_def Let_def split: option.splits)
next
  case (M_Write todo)
  show ?thesis
  proof (cases "todo = []")
    case True
    with assms M_Write write_end show ?thesis
      by (auto simp: main_step_def)
  next
    case False
    with assms M_Write have n: "n < length todo"
      by (auto simp: main_step_def split: if_splits)
    obtain fname cf where fc: "todo ! n = (fname, cf)"
      by (cases "todo ! n")
    from assms M_Write False n fc write_remove [OF M_Write n fc]
      write_fail [OF M_Write n fc] write_ok [OF M_Write n fc]
    show ?thesis
      by (auto simp: main_step_def Let_def split: if_splits option.splits)
  qed
next
  case M_Check
  with assms check_run check_skip show ?thesis
    by (auto simp: main_step_def split: if_splits)
next
  case (M_Cleanup i)
  with assms cleanup_rm cleanup_skip cleanup_end show ?thesis
    by (auto simp: main_step_def split: if_splits)
next
  case (M_Exit c)
  with assms show ?thesis by (simp add: main_step_def)
next
  case (M_Failf m)
  with assms show ?thesis by (simp add: main_step_def)
next
  case M_Panic
  with assms show ?thesis by (simp add: main_step_def)
qed

subsection \<open>Runs and reachability\<close>

lemma run_reachable:
  "reachable env fl ex as0 s \<Longrightarrow> run env fl ex s ts = Some s' \<Longrightarrow> reachable env fl ex as0 s'"
proof (induction ts arbitrary: s)
  case Nil
  then show ?case by simp
next
  case (Cons t ts)
  then show ?case
    by (auto split: option.splits intro: r_step)
qed

lemma run_append:
  "run env fl ex s (ts @ us) =
     (case run env fl ex s ts of None \<Rightarrow> None | Some s' \<Rightarrow> run env fl ex s' us)"
  by (induction ts arbitrary: s) (auto split: option.splits)

lemma reachable_run:
  "reachable env fl ex as0 s \<Longrightarrow> \<exists>ts. run env fl ex (init env as0) ts = Some s"
proof (induction rule: reachable.induct)
  case r_init
  have "run env fl ex (init env as0) [] = Some (init env as0)" by simp
  then show ?case by blast
next
  case (r_step s t s')
  then obtain ts where ts: "run env fl ex (init env as0) ts = Some s" by blast
  with r_step.hyps(2) have "run env fl ex (init env as0) (ts @ [t]) = Some s'"
    by (simp add: run_append)
  then show ?case by blast
qed

lemma step_cases [consumes 1, case_names main worker]:
  assumes "step env fl ex s t = Some s'"
  obtains (main) n where "t = Main n" "\<not> terminated (mainpc s)" "main_step env fl n s = Some s'"
  | (worker) w where "t = Worker w" "\<not> terminated (mainpc s)" "w < length (workers s)"
      "worker_step env ex w s = Some s'"
  using assms by (auto simp: step_def split: if_splits sched.splits)

subsection \<open>Updates of the shared structures\<close>

lemma length_updArch [simp]: "length (updArch p g as) = length as"
  by (simp add: updArch_def)

lemma length_updFile [simp]: "length (updFile p k g as) = length as"
  by (simp add: updFile_def)

lemma nth_updArch:
  "updArch p g as ! q = (if q = p \<and> p < length as then g (as ! p) else as ! q)"
  by (cases "p < length as") (auto simp: updArch_def nth_list_update list_update_beyond)

lemma nth_updFile:
  "updFile p k g as ! q =
     (if q = p \<and> p < length as then (as ! p)\<lparr>files := (files (as ! p))[k := g (files (as ! p) ! k)]\<rparr>
      else as ! q)"
  by (simp add: updFile_def nth_updArch)

lemma the_file_updFile:
  "the_file (updFile p k g as) q m =
     (if q = p \<and> m = k \<and> p < length as \<and> k < nfiles as p then g (the_file as p k)
      else the_file as q m)"
  by (cases "k < length (files (as ! p))")
    (auto simp: the_file_def nth_updFile nfiles_def nth_list_update list_update_beyond)

lemma the_file_updArch:
  "files (g (as ! p)) = files (as ! p) \<Longrightarrow> the_file (updArch p g as) q m = the_file as q m"
  by (auto simp: the_file_def nth_updArch)

lemma nfiles_updArch:
  "files (g (as ! p)) = files (as ! p) \<Longrightarrow> nfiles (updArch p g as) q = nfiles as q"
  by (auto simp: nfiles_def nth_updArch)

lemma nfiles_updFile [simp]: "nfiles (updFile p k g as) q = nfiles as q"
  by (auto simp: nfiles_def nth_updFile)

lemma static_updArch:
  "static (g (as ! p)) = static (as ! p) \<Longrightarrow> map static (updArch p g as) = map static as"
  by (simp add: updArch_def map_update list_update_same_conv list_update_beyond
      flip: nth_map) (metis list_update_beyond list_update_id length_map nth_map not_le_imp_less)

lemma static_updFile:
  "(\<And>f. static_file (g f) = static_file f) \<Longrightarrow> map static (updFile p k g as) = map static as"
  unfolding updFile_def
  by (rule static_updArch) (simp add: static_def map_update list_update_same_conv, metis list_update_beyond list_update_id length_map nth_map not_le_imp_less)

subsection \<open>Ownership of jobs\<close>

lemma sum_list_update_mset:
  fixes f :: "'a \<Rightarrow> 'b multiset"
  shows "w < length ws \<Longrightarrow>
    sum_list (map f (ws[w := x])) + f (ws ! w) = sum_list (map f ws) + f x"
proof (induction ws arbitrary: w)
  case Nil
  then show ?case by simp
next
  case (Cons a ws)
  then show ?case
    by (cases w) (auto simp: ac_simps)
qed

lemma in_sum_list_mset:
  fixes f :: "'a \<Rightarrow> 'b multiset"
  shows "j \<in># sum_list (map f xs) \<longleftrightarrow> (\<exists>x \<in> set xs. j \<in># f x)"
  by (induction xs) auto

lemma nfiles_static:
  "map static as = map static bs \<Longrightarrow> p < length as \<Longrightarrow> nfiles as p = nfiles bs p"
proof -
  assume a: "map static as = map static bs" and p: "p < length as"
  then have l: "length as = length bs" by (metis length_map)
  from a l p have "static (as ! p) = static (bs ! p)" by (metis nth_map)
  then have "length (map static_file (files (as ! p))) = length (map static_file (files (bs ! p)))"
    by (simp add: static_def)
  then show ?thesis by (simp add: nfiles_def)
qed

lemma unsent_cong: "(\<And>q. nfiles bs q = nfiles as q) \<Longrightarrow> unsent bs = unsent as"
  by (rule ext)+ (simp add: unsent_def)

lemma expand_cong:
  assumes "\<And>q. nfiles bs q = nfiles as q"
  shows "expand bs = expand as"
  using unsent_cong [OF assms] by (auto simp: expand_def fun_eq_iff split: job.splits)

lemma holds_cong:
  assumes "\<And>q. nfiles bs q = nfiles as q"
  shows "holds bs = holds as"
  using unsent_cong [OF assms] expand_cong [OF assms]
  by (auto simp: holds_def fun_eq_iff split: wpc.splits)

lemma tokens_cong:
  "(\<And>q. nfiles (arches s') q = nfiles (arches s) q) \<Longrightarrow> jobC s' = jobC s \<Longrightarrow>
   workers s' = workers s \<Longrightarrow> tokens s' = tokens s"
proof -
  assume a: "\<And>q. nfiles (arches s') q = nfiles (arches s) q"
    and b: "jobC s' = jobC s" "workers s' = workers s"
  show ?thesis
    unfolding tokens_def expand_cong [OF a] holds_cong [OF a] b ..
qed

lemma valid_job_cong:
  "length bs = length as \<Longrightarrow> (\<And>q. nfiles bs q = nfiles as q) \<Longrightarrow> valid_job bs = valid_job as"
  by (rule ext) (simp add: valid_job_def split: job.splits)

lemma unsent_Suc: "k < nfiles as p \<Longrightarrow> unsent as p k = add_mset (FileJob p k) (unsent as p (Suc k))"
  by (simp add: unsent_def upt_conv_Cons)

lemma unsent_end: "\<not> k < nfiles as p \<Longrightarrow> unsent as p k = {#}"
  by (simp add: unsent_def)

lemma in_unsent: "j \<in># unsent as p k \<longleftrightarrow> (\<exists>m. j = FileJob p m \<and> k \<le> m \<and> m < nfiles as p)"
  by (auto simp: unsent_def)

lemma job_done_simps [simp]:
  "job_done as (ArchJob p) = Arch.done_ch (as ! p)"
  "job_done as (FileJob p k) = File.done_ch (the_file as p k)"
  by (simp_all add: job_done_def)

lemma job_done_updArch:
  "files (g (as ! p)) = files (as ! p) \<Longrightarrow>
   job_done (updArch p g as) j =
     (if j = ArchJob p \<and> p < length as then Arch.done_ch (g (as ! p)) else job_done as j)"
  by (auto simp: job_done_def nth_updArch the_file_updArch split: job.splits)

lemma job_done_updFile:
  "job_done (updFile p k g as) j =
     (if j = FileJob p k \<and> p < length as \<and> k < nfiles as p then File.done_ch (g (the_file as p k))
      else job_done as j)"
  by (auto simp: job_done_def nth_updFile the_file_updFile split: job.splits)

lemma tokens_step_eq:
  assumes "w < length (workers s)" and "\<And>q. nfiles (arches s') q = nfiles (arches s) q"
    and "workers s' = (workers s)[w := pc']"
  shows "tokens s' + holds (arches s) (workers s ! w) + sum_list (map (expand (arches s)) (jobC s)) =
         tokens s + holds (arches s) pc' + sum_list (map (expand (arches s)) (jobC s'))"
  using sum_list_update_mset [OF assms(1), of "holds (arches s)" pc']
  unfolding tokens_def expand_cong [OF assms(2)] holds_cong [OF assms(2)] assms(3)
  by (simp add: ac_simps)

text \<open>The effect of a worker's step on the tokens: none are created.\<close>

lemma tokens_worker_step:
  assumes "worker_step env ex w s = Some s'" and w: "w < length (workers s)"
    and ok: "\<forall>pc \<in> set (workers s). wpc_ok (arches s) pc"
  shows "\<exists>R. tokens s = tokens s' + R \<and>
           (\<forall>j. job_done (arches s') j \<and> \<not> job_done (arches s) j \<longrightarrow> j \<in># R)"
  using assms(1)
proof (cases rule: worker_step_cases)
  case (recv j js)
  have "holds (arches s) (case j of ArchJob p \<Rightarrow> W_Arch p | FileJob p k \<Rightarrow> W_File p k) = expand (arches s) j"
    by (cases j) (simp_all add: holds_def expand_def)
  with tokens_step_eq [OF w, of s' "case j of ArchJob p \<Rightarrow> W_Arch p | FileJob p k \<Rightarrow> W_File p k"]
  have "tokens s' = tokens s"
    by (simp add: recv holds_def)
  then show ?thesis
    by (simp add: recv)
next
  case (arch p)
  with tokens_step_eq [OF w, of s' "W_ArchClose p (fst (processArch env ex (arches s ! p)))"]
  have "tokens s' = tokens s"
    by (simp add: holds_def nfiles_updArch)
  then show ?thesis
    by (simp add: arch job_done_updArch)
next
  case (archclose_panic p infos)
  then show ?thesis by (simp add: tokens_def)
next
  case (archclose p infos)
  with tokens_step_eq [OF w, of s' "W_ArchCheck p infos"]
  have "tokens s = tokens s' + {#ArchJob p#}"
    by (simp add: holds_def nfiles_updArch expand_def)
  then show ?thesis
    by (auto simp: archclose job_done_updArch)
next
  case (archcheck p infos)
  show ?thesis
  proof (cases "Arch.err (arches s ! p) = None")
    case True
    with archcheck tokens_step_eq [OF w, of s' "W_Files p infos 0"]
    have "tokens s' = tokens s"
      by (simp add: holds_def)
    then show ?thesis by (simp add: archcheck)
  next
    case False
    with archcheck tokens_step_eq [OF w, of s' "W_Recv"]
    have "tokens s = tokens s' + unsent (arches s) p 0"
      by (simp add: holds_def)
    then show ?thesis by (auto simp: archcheck)
  qed
next
  case (files_next p infos k)
  with tokens_step_eq [OF w, of s' "W_Send p infos k"]
  have "tokens s' = tokens s"
    by (simp add: holds_def)
  then show ?thesis
    by (simp add: files_next job_done_updFile)
next
  case (files_end p infos k)
  with tokens_step_eq [OF w, of s' "W_Recv"]
  have "tokens s' = tokens s"
    by (simp add: holds_def unsent_end nfiles_def)
  then show ?thesis by (simp add: files_end)
next
  case (send p infos k)
  from send(1) w ok have "wpc_ok (arches s) (W_Send p infos k)"
    by (metis nth_mem)
  then have "k < nfiles (arches s) p" by (simp add: wpc_ok_def)
  with send tokens_step_eq [OF w, of s' "W_Files p infos (Suc k)"]
  have "tokens s' = tokens s"
    by (simp add: holds_def unsent_Suc expand_def)
  then show ?thesis by (simp add: send)
next
  case (fileproc p k)
  with tokens_step_eq [OF w, of s' "W_FileClose p k"]
  have "tokens s' = tokens s"
    by (simp add: holds_def)
  then show ?thesis
    by (simp add: fileproc job_done_updFile)
next
  case (fileclose_panic p k)
  then show ?thesis by (simp add: tokens_def)
next
  case (fileclose p k)
  with tokens_step_eq [OF w, of s' "W_Recv"]
  have "tokens s = tokens s' + {#FileJob p k#}"
    by (simp add: holds_def)
  then show ?thesis
    by (auto simp: fileclose job_done_updFile)
qed

lemma held_token:
  "w < length (workers s) \<Longrightarrow> j \<in># holds (arches s) (workers s ! w) \<Longrightarrow> j \<in># tokens s"
  by (auto simp: tokens_def in_sum_list_mset)

lemma queued_token:
  "j \<in> set (jobC s) \<Longrightarrow> j' \<in># expand (arches s) j \<Longrightarrow> j' \<in># tokens s"
  by (auto simp: tokens_def in_sum_list_mset)

lemma static_worker_step:
  assumes "worker_step env ex w s = Some s'"
  shows "map static (arches s') = map static (arches s)"
  using assms
  by (cases rule: worker_step_cases)
     (simp_all add: static_updArch static_updFile static_def static_file_def)

lemma static_main_step:
  assumes "main_step env fl n s = Some s'"
  shows "arches s' = arches s \<and> jobC s' = jobC s \<and> workers s' = workers s \<and> mainpc s' \<noteq> M_Panic"
  using assms
  by (cases rule: main_step_cases) simp_all

lemma frame_worker_step:
  assumes "worker_step env ex w s = Some s'"
  shows "failed s' = failed s \<and> constFiles s' = constFiles s \<and>
         (mainpc s' = mainpc s \<or> mainpc s' = M_Panic) \<and> length (workers s') = length (workers s) \<and>
         length (arches s') = length (arches s) \<and> (\<forall>q. nfiles (arches s') q = nfiles (arches s) q)"
  using assms
  by (cases rule: worker_step_cases) (simp_all add: nfiles_updArch)

text \<open>What a worker may change of an architecture whose channel is closed: nothing.\<close>

lemma arch_stable:
  assumes st: "worker_step env ex w s = Some s'" and w: "w < length (workers s)"
    and tok: "\<forall>j. j \<in># tokens s \<longrightarrow> valid_job (arches s) j \<and> \<not> job_done (arches s) j"
    and d: "Arch.done_ch (arches s ! q)"
  shows "Arch.done_ch (arches s' ! q) \<and> Arch.err (arches s' ! q) = Arch.err (arches s ! q)"
  using st
proof (cases rule: worker_step_cases)
  case (arch p)
  from arch(1) w have "ArchJob p \<in># tokens s"
    by (auto intro!: held_token simp: holds_def expand_def)
  with tok d have "q \<noteq> p" by auto
  with d show ?thesis by (simp add: arch nth_updArch)
qed (use d in \<open>auto simp: nth_updArch nth_updFile\<close>)

lemma mem_set_update: "x \<in> set (xs[i := y]) \<Longrightarrow> x = y \<or> x \<in> set xs"
  by (metis in_set_conv_nth length_list_update nth_list_update_eq nth_list_update_neq)

lemma wpc_ok_stable:
  assumes "wpc_ok as pc" and "length bs = length as" and "\<And>q. nfiles bs q = nfiles as q"
    and "\<And>q. Arch.done_ch (as ! q) \<Longrightarrow> Arch.done_ch (bs ! q) \<and> Arch.err (bs ! q) = Arch.err (as ! q)"
  shows "wpc_ok bs pc"
  using assms by (auto simp: wpc_ok_def split: wpc.splits)

lemma inv1_worker_step:
  assumes inv: "inv1 as0 s" and st: "worker_step env ex w s = Some s'" and w: "w < length (workers s)"
  shows "inv1 as0 s'"
proof -
  from inv have stat: "map static (arches s) = map static as0"
    and cnt: "\<And>j. count (tokens s) j \<le> 1"
    and tok: "\<forall>j. j \<in># tokens s \<longrightarrow> valid_job (arches s) j \<and> \<not> job_done (arches s) j"
    and ok: "\<forall>pc \<in> set (workers s). wpc_ok (arches s) pc"
    and q: "\<And>p k. FileJob p k \<in> set (jobC s) \<Longrightarrow>
        Arch.done_ch (arches s ! p) \<and> Arch.err (arches s ! p) = None"
    and np: "mainpc s \<noteq> M_Panic"
    by (auto simp: inv1_def)
  from tokens_worker_step [OF st w ok] obtain R where
    R: "tokens s = tokens s' + R"
    and Rd: "\<And>j. job_done (arches s') j \<Longrightarrow> \<not> job_done (arches s) j \<Longrightarrow> j \<in># R"
    by blast
  note fr = frame_worker_step [OF st]
  note stab = arch_stable [OF st w tok]
  have pcw: "wpc_ok (arches s) (workers s ! w)"
    using ok w by simp
  have 1: "map static (arches s') = map static as0"
    using static_worker_step [OF st] stat by simp
  have 2: "count (tokens s') j \<le> 1" for j
    using cnt [of j] R by simp
  have 3: "valid_job (arches s') j \<and> \<not> job_done (arches s') j" if "j \<in># tokens s'" for j
  proof -
    from that R have j: "j \<in># tokens s" by simp
    with tok have v: "valid_job (arches s) j" and nd: "\<not> job_done (arches s) j" by auto
    from v fr have "valid_job (arches s') j"
      by (simp add: valid_job_def split: job.splits)
    moreover have "\<not> job_done (arches s') j"
    proof
      assume "job_done (arches s') j"
      with nd Rd have "j \<in># R" by blast
      with that have "0 < count (tokens s') j" "0 < count R j" by simp_all
      moreover have "count (tokens s) j = count (tokens s') j + count R j"
        by (simp add: R)
      ultimately show False using cnt [of j] by linarith
    qed
    ultimately show ?thesis ..
  qed
  have old: "wpc_ok (arches s') pc" if "pc \<in> set (workers s)" for pc
    using wpc_ok_stable [of "arches s" pc "arches s'"] ok that fr stab by simp
  have 456: "(\<forall>pc \<in> set (workers s'). wpc_ok (arches s') pc) \<and>
     (\<forall>p k. FileJob p k \<in> set (jobC s') \<longrightarrow>
        Arch.done_ch (arches s' ! p) \<and> Arch.err (arches s' ! p) = None) \<and>
     mainpc s' \<noteq> M_Panic"
    using st
  proof (cases rule: worker_step_cases)
    case (recv j js)
    have "wpc_ok (arches s') (case j of ArchJob p \<Rightarrow> W_Arch p | FileJob p k \<Rightarrow> W_File p k)"
      using q recv by (cases j) (auto simp: wpc_ok_def)
    with old recv q np show ?thesis
      by (auto dest!: mem_set_update)
  next
    case (arch p)
    have "wpc_ok (arches s') (W_ArchClose p (fst (processArch env ex (arches s ! p))))"
      by (simp add: wpc_ok_def)
    moreover have "Arch.done_ch (arches s' ! p') \<and> Arch.err (arches s' ! p') = None"
      if "FileJob p' k \<in> set (jobC s)" for p' k
      using q [OF that] stab [of p'] by simp
    ultimately show ?thesis
      using old np by (auto dest!: mem_set_update simp: arch)
  next
    case (archclose_panic p infos)
    from archclose_panic(1) w have "ArchJob p \<in># tokens s"
      by (auto intro!: held_token simp: holds_def expand_def)
    with tok archclose_panic(2) show ?thesis by auto
  next
    case (archclose p infos)
    from archclose(1) w have "ArchJob p \<in># tokens s"
      by (auto intro!: held_token simp: holds_def expand_def)
    with tok have "p < length (arches s)" by (auto simp: valid_job_def)
    then have "wpc_ok (arches s') (W_ArchCheck p infos)"
      by (simp add: wpc_ok_def archclose nth_updArch)
    moreover have "Arch.done_ch (arches s' ! p') \<and> Arch.err (arches s' ! p') = None"
      if "FileJob p' k \<in> set (jobC s)" for p' k
      using q [OF that] stab [of p'] by simp
    ultimately show ?thesis
      using old np by (auto dest!: mem_set_update simp: archclose)
  next
    case (archcheck p infos)
    from pcw archcheck(1) have "wpc_ok (arches s')
        (if Arch.err (arches s ! p) = None then W_Files p infos 0 else W_Recv)"
      by (simp add: wpc_ok_def archcheck(2))
    then show ?thesis
      using old np q by (auto dest!: mem_set_update simp: archcheck(2))
  next
    case (files_next p infos k)
    from pcw files_next(1) have "p < length (arches s)" "Arch.done_ch (arches s ! p)"
      "Arch.err (arches s ! p) = None"
      by (simp_all add: wpc_ok_def)
    with files_next(2) stab [of p] fr have "wpc_ok (arches s') (W_Send p infos k)"
      by (simp add: wpc_ok_def nfiles_def)
    moreover have "Arch.done_ch (arches s' ! p') \<and> Arch.err (arches s' ! p') = None"
      if "FileJob p' k \<in> set (jobC s)" for p' k
      using q [OF that] stab [of p'] by simp
    ultimately show ?thesis
      using old np by (auto dest!: mem_set_update simp: files_next(3))
  next
    case (files_end p infos k)
    have "wpc_ok (arches s') W_Recv" by (simp add: wpc_ok_def)
    then show ?thesis
      using old np q by (auto dest!: mem_set_update simp: files_end(3))
  next
    case (send p infos k)
    from pcw send(1) have *: "p < length (arches s)" "Arch.done_ch (arches s ! p)"
      "Arch.err (arches s ! p) = None"
      by (simp_all add: wpc_ok_def)
    then have "wpc_ok (arches s') (W_Files p infos (Suc k))"
      by (simp add: wpc_ok_def send(3))
    then show ?thesis
      using old np q * by (auto dest!: mem_set_update simp: send(3))
  next
    case (fileproc p k)
    from pcw fileproc(1) have "Arch.done_ch (arches s ! p)" "Arch.err (arches s ! p) = None"
      by (simp_all add: wpc_ok_def)
    with stab [of p] have "wpc_ok (arches s') (W_FileClose p k)"
      by (simp add: wpc_ok_def)
    moreover have "Arch.done_ch (arches s' ! p') \<and> Arch.err (arches s' ! p') = None"
      if "FileJob p' k \<in> set (jobC s)" for p' k
      using q [OF that] stab [of p'] by simp
    ultimately show ?thesis
      using old np by (auto dest!: mem_set_update simp: fileproc(2))
  next
    case (fileclose_panic p k)
    from fileclose_panic(1) w have "FileJob p k \<in># tokens s"
      by (auto intro!: held_token simp: holds_def)
    with tok fileclose_panic(2) show ?thesis by auto
  next
    case (fileclose p k)
    have "wpc_ok (arches s') W_Recv" by (simp add: wpc_ok_def)
    moreover have "Arch.done_ch (arches s' ! p') \<and> Arch.err (arches s' ! p') = None"
      if "FileJob p' k \<in> set (jobC s)" for p' k
      using q [OF that] stab [of p'] by simp
    ultimately show ?thesis
      using old np by (auto dest!: mem_set_update simp: fileclose(3))
  qed
  from 1 2 3 456 show ?thesis
    unfolding inv1_def by blast
qed

lemma inv1_main_step:
  assumes inv: "inv1 as0 s" and st: "main_step env fl n s = Some s'"
  shows "inv1 as0 s'"
proof -
  from static_main_step [OF st] have *: "arches s' = arches s" "jobC s' = jobC s"
    "workers s' = workers s" "mainpc s' \<noteq> M_Panic"
    by simp_all
  then have "tokens s' = tokens s" by (simp add: tokens_def)
  with inv * show ?thesis by (simp add: inv1_def)
qed

lemma count_unsent: "count (unsent as p k) j \<le> 1"
proof -
  have "distinct (map (FileJob p) [k..<nfiles as p])"
    by (simp add: distinct_map inj_on_def)
  then show ?thesis
    by (simp add: unsent_def distinct_count_atmost_1)
qed

lemma tokens_init_mem:
  "j \<in># sum_list (map (expand as) (map ArchJob [0..<n])) \<longleftrightarrow>
     (case j of ArchJob p \<Rightarrow> p < n | FileJob p k \<Rightarrow> p < n \<and> k < nfiles as p)"
  by (induction n) (auto simp: expand_def in_unsent less_Suc_eq split: job.splits)

lemma tokens_init_count:
  "count (sum_list (map (expand as) (map ArchJob [0..<n]))) j \<le> 1"
proof (induction n)
  case 0
  then show ?case by simp
next
  case (Suc n)
  show ?case
  proof (cases "j \<in># expand as (ArchJob n)")
    case True
    then have "j \<notin># sum_list (map (expand as) (map ArchJob [0..<n]))"
      by (auto simp: tokens_init_mem expand_def in_unsent split: job.splits)
    then have "count (sum_list (map (expand as) (map ArchJob [0..<n]))) j = 0"
      by (simp add: count_eq_zero_iff)
    moreover have "count (expand as (ArchJob n)) j \<le> 1"
      using count_unsent [of as n 0 j] by (auto simp: expand_def in_unsent count_eq_zero_iff)
    ultimately show ?thesis by simp
  next
    case False
    then have "count (expand as (ArchJob n)) j = 0"
      by (simp add: count_eq_zero_iff)
    with Suc show ?thesis by simp
  qed
qed

lemma inv1_init:
  assumes "fresh as0"
  shows "inv1 as0 (init env as0)"
proof -
  have "sum_list (replicate n ({#} :: job multiset)) = {#}" for n
    by (induction n) simp_all
  then have t: "tokens (init env as0) = sum_list (map (expand as0) (map ArchJob [0..<length as0]))"
    by (simp add: tokens_def init_def holds_def)
  have 3: "valid_job as0 j \<and> \<not> job_done as0 j" if "j \<in># tokens (init env as0)" for j
    using that assms unfolding t tokens_init_mem
    by (cases j) (auto simp: fresh_def valid_job_def)
  have 2: "count (tokens (init env as0)) j \<le> 1" for j
    unfolding t by (rule tokens_init_count)
  have 1: "arches (init env as0) = as0" "mainpc (init env as0) \<noteq> M_Panic"
    "\<forall>pc \<in> set (workers (init env as0)). wpc_ok as0 pc"
    "\<And>p k. FileJob p k \<notin> set (jobC (init env as0))"
    by (auto simp: init_def wpc_ok_def)
  show ?thesis
    unfolding inv1_def 1 using 1 2 3 by blast
qed

lemma reachable_inv1:
  assumes "fresh as0" and "reachable env fl ex as0 s"
  shows "inv1 as0 s"
  using assms(2)
proof (induction rule: reachable.induct)
  case r_init
  show ?case by (rule inv1_init [OF assms(1)])
next
  case (r_step s t s')
  from r_step.hyps(2) show ?case
    by (cases rule: step_cases) (auto intro: inv1_main_step inv1_worker_step r_step.IH)
qed

subsection \<open>createArches\<close>

lemma createArches_loop_props:
  assumes "createArches_loop env fl os fs allFiles acc archArray = Inr as"
  shows "length as = length acc + length archArray \<and> take (length acc) as = acc \<and>
    (\<forall>i < length archArray.
       files (as ! (length acc + i)) =
         map (newFile (length acc + i)) (archFiles fs allFiles (archArray ! i)) \<and>
       Arch.err (as ! (length acc + i)) = None \<and>
       \<not> Arch.done_ch (as ! (length acc + i)) \<and>
       build (as ! (length acc + i)) = flagBuild fl \<and>
       targets_Get env os (archArray ! i) = Some (target (as ! (length acc + i))) \<and>
       (if flagBuild fl then TempDir env (length acc + i) = Inr (buildDir (as ! (length acc + i)))
        else buildDir (as ! (length acc + i)) =
               (if flagBuildDir fl \<noteq> [] then flagBuildDir fl else flagSourceDir fl)))"
  using assms
proof (induction archArray arbitrary: acc)
  case Nil
  then show ?case by simp
next
  case (Cons archStr rest)
  from Cons.prems obtain dir t where
    dir: "(if flagBuild fl
            then (case TempDir env (length acc) of
                    Inl e \<Rightarrow> Inl (''failed to create temp dir: '' @ e)
                  | Inr dir \<Rightarrow> Inr dir)
            else if flagBuildDir fl \<noteq> [] then Inr (flagBuildDir fl)
            else Inr (flagSourceDir fl)) = Inr dir"
    and t: "targets_Get env os archStr = Some t"
    and rec: "createArches_loop env fl os fs allFiles
                 (acc @
                  [\<lparr> target = t, sourceDir = flagSourceDir fl, includeDirs = flagIncludes fl,
                     buildDir = dir, build = flagBuild fl,
                     files = map (newFile (length acc)) (archFiles fs allFiles archStr),
                     err = None, done_ch = False \<rparr>])
                 rest = Inr as"
    by (auto split: sum.splits option.splits)
  let ?a = "\<lparr> target = t, sourceDir = flagSourceDir fl, includeDirs = flagIncludes fl,
                     buildDir = dir, build = flagBuild fl,
                     files = map (newFile (length acc)) (archFiles fs allFiles archStr),
                     err = None, done_ch = False \<rparr>"
  note IH = Cons.IH [OF rec]
  from IH have len: "length as = length acc + length (archStr # rest)"
    by simp
  from IH have tk: "take (Suc (length acc)) as = acc @ [?a]"
    by simp
  then have tk0: "take (length acc) as = acc"
    by (metis append_eq_conv_conj length_take min.absorb2 le_add1 len take_take
        min.commute le_SucI order_refl butlast_snoc butlast_take diff_Suc_1 length_append_singleton)
  from tk len have hd: "as ! length acc = ?a"
    by (metis lessI nth_append_length nth_take)
  have d: "if flagBuild fl then TempDir env (length acc) = Inr dir
        else dir = (if flagBuildDir fl \<noteq> [] then flagBuildDir fl else flagSourceDir fl)"
    using dir by (auto split: if_splits sum.splits)
  show ?case
  proof (intro conjI allI impI)
    fix i assume i: "i < length (archStr # rest)"
    show "files (as ! (length acc + i)) =
         map (newFile (length acc + i)) (archFiles fs allFiles ((archStr # rest) ! i))"
      using IH i hd by (cases i) auto
    show "Arch.err (as ! (length acc + i)) = None"
      using IH i hd by (cases i) auto
    show "\<not> Arch.done_ch (as ! (length acc + i))"
      using IH i hd by (cases i) auto
    show "build (as ! (length acc + i)) = flagBuild fl"
      using IH i hd by (cases i) auto
    show "targets_Get env os ((archStr # rest) ! i) = Some (target (as ! (length acc + i)))"
      using IH i hd t by (cases i) auto
    show "if flagBuild fl then TempDir env (length acc + i) = Inr (buildDir (as ! (length acc + i)))
        else buildDir (as ! (length acc + i)) =
               (if flagBuildDir fl \<noteq> [] then flagBuildDir fl else flagSourceDir fl)"
      using IH i hd d by (cases i) (auto split: if_splits)
  qed (use len tk0 in auto)
qed

text \<open>A worker changes nothing of a job whose channel is closed.\<close>

lemma file_stable:
  assumes st: "worker_step env ex w s = Some s'" and w: "w < length (workers s)"
    and tok: "\<forall>j. j \<in># tokens s \<longrightarrow> valid_job (arches s) j \<and> \<not> job_done (arches s) j"
    and d: "File.done_ch (the_file (arches s) q m)"
  shows "the_file (arches s') q m = the_file (arches s) q m"
  using st
proof (cases rule: worker_step_cases)
  case (files_next p infos k)
  from files_next(1,2) w have "FileJob p k \<in># tokens s"
    by (intro held_token) (auto simp: holds_def in_unsent nfiles_def)
  with tok d have "\<not> (q = p \<and> m = k)" by auto
  then show ?thesis by (auto simp: files_next(3) the_file_updFile)
next
  case (fileproc p k)
  from fileproc(1) w have "FileJob p k \<in># tokens s"
    by (intro held_token) (auto simp: holds_def)
  with tok d have "\<not> (q = p \<and> m = k)" by auto
  then show ?thesis by (auto simp: fileproc(2) the_file_updFile)
next
  case (fileclose p k)
  from fileclose(1) w have "FileJob p k \<in># tokens s"
    by (intro held_token) (auto simp: holds_def)
  with tok d have "\<not> (q = p \<and> m = k)" by auto
  then show ?thesis by (auto simp: fileclose(3) the_file_updFile)
qed (simp_all add: the_file_updArch)

text \<open>A worker touches a file only after the parent's channel is closed without error.\<close>

lemma file_untouched:
  assumes st: "worker_step env ex w s = Some s'" and w: "w < length (workers s)"
    and ok: "\<forall>pc \<in> set (workers s). wpc_ok (arches s) pc"
    and d: "\<not> (Arch.done_ch (arches s ! q) \<and> Arch.err (arches s ! q) = None)"
  shows "the_file (arches s') q m = the_file (arches s) q m"
  using st
proof (cases rule: worker_step_cases)
  case (files_next p infos k)
  from files_next(1) w ok have "wpc_ok (arches s) (W_Files p infos k)" by (metis nth_mem)
  with d have "q \<noteq> p" by (auto simp: wpc_ok_def)
  then show ?thesis by (auto simp: files_next(3) the_file_updFile)
next
  case (fileproc p k)
  from fileproc(1) w ok have "wpc_ok (arches s) (W_File p k)" by (metis nth_mem)
  with d have "q \<noteq> p" by (auto simp: wpc_ok_def)
  then show ?thesis by (auto simp: fileproc(2) the_file_updFile)
next
  case (fileclose p k)
  from fileclose(1) w ok have "wpc_ok (arches s) (W_FileClose p k)" by (metis nth_mem)
  with d have "q \<noteq> p" by (auto simp: wpc_ok_def)
  then show ?thesis by (auto simp: fileclose(3) the_file_updFile)
qed (simp_all add: the_file_updArch)

lemma done_mono:
  assumes st: "worker_step env ex w s = Some s'" and "job_done (arches s) j"
  shows "job_done (arches s') j"
  using st assms(2)
  by (cases rule: worker_step_cases) (auto simp: job_done_updArch job_done_updFile)

lemma drained_stable:
  assumes st: "worker_step env ex w s = Some s'" and w: "w < length (workers s)"
    and inv: "inv1 as0 s" and d: "arch_drained (arches s) q"
  shows "arch_drained (arches s') q"
proof -
  from inv have tok: "\<forall>j. j \<in># tokens s \<longrightarrow> valid_job (arches s) j \<and> \<not> job_done (arches s) j"
    by (simp add: inv1_def)
  from d have dq: "Arch.done_ch (arches s ! q)" by (simp add: arch_drained_def)
  note a = arch_stable [OF st w tok dq]
  from frame_worker_step [OF st] have n: "nfiles (arches s') q = nfiles (arches s) q" by simp
  show ?thesis
    using d a n file_stable [OF st w tok, of q]
    by (auto simp: arch_drained_def)
qed

lemma main_ok_worker_step:
  assumes st: "worker_step env ex w s = Some s'" and w: "w < length (workers s)"
    and inv: "inv1 as0 s" and m: "main_ok s"
  shows "main_ok s'"
proof (cases "mainpc s' = M_Panic")
  case True
  then show ?thesis by (simp add: main_ok_def)
next
  case False
  with frame_worker_step [OF st] have pc: "mainpc s' = mainpc s"
    and l: "length (arches s') = length (arches s)"
    and n: "\<And>q. nfiles (arches s') q = nfiles (arches s) q"
    by auto
  from inv have tok: "\<forall>j. j \<in># tokens s \<longrightarrow> valid_job (arches s) j \<and> \<not> job_done (arches s) j"
    by (simp add: inv1_def)
  note dr = drained_stable [OF st w inv]
  note as = arch_stable [OF st w tok]
  note fs = file_stable [OF st w tok]
  show ?thesis
    using m dr as fs
    unfolding main_ok_def pc l n
    by (cases "mainpc s") auto
qed

lemma main_ok_main_step:
  assumes st: "main_step env fl n s = Some s'" and m: "main_ok s"
  shows "main_ok s'"
  using st m
  by (cases rule: main_step_cases)
     (auto simp: main_ok_def arch_drained_def less_Suc_eq nfiles_def)

lemma main_ok_init: "main_ok (init env as0)"
  by (simp add: main_ok_def init_def)

lemma reachable_main_ok:
  assumes "fresh as0" and "reachable env fl ex as0 s"
  shows "main_ok s"
  using assms(2)
proof (induction rule: reachable.induct)
  case r_init
  show ?case by (rule main_ok_init)
next
  case (r_step s t s')
  from r_step.hyps(2) show ?case
  proof (cases rule: step_cases)
    case (main n)
    then show ?thesis using r_step.IH by (auto intro: main_ok_main_step)
  next
    case (worker w)
    then show ?thesis
      using r_step.IH reachable_inv1 [OF assms(1) r_step.hyps(1)]
      by (auto intro: main_ok_worker_step)
  qed
qed

lemma static_nth:
  assumes "map static as = map static bs" and "p < length as"
  shows "static (as ! p) = static (bs ! p)" and "length bs = length as"
  using assms by (metis nth_map length_map)+

lemma static_file_nth:
  assumes "map static as = map static bs" and "p < length as" and "k < nfiles as p"
  shows "arch (the_file as p k) = arch (the_file bs p k)"
    and "name (the_file as p k) = name (the_file bs p k)"
proof -
  from static_nth [OF assms(1,2)] have "map static_file (files (as ! p)) = map static_file (files (bs ! p))"
    by (simp add: static_def)
  with assms(3) have "static_file (files (as ! p) ! k) = static_file (files (bs ! p) ! k)"
    by (metis nfiles_def nth_map length_map)
  then show "arch (the_file as p k) = arch (the_file bs p k)"
    and "name (the_file as p k) = name (the_file bs p k)"
    by (simp_all add: static_file_def the_file_def)
qed

lemma back_ok_static:
  assumes "map static as = map static bs" and "back_ok bs"
  shows "back_ok as"
  unfolding back_ok_def
proof (intro allI impI)
  fix p k assume p: "p < length as" and k: "k < nfiles as p"
  from static_nth [OF assms(1) p] have l: "length bs = length as" by simp
  have "arch (the_file as p k) = arch (the_file bs p k)"
    by (rule static_file_nth [OF assms(1) p k])
  moreover from nfiles_static [OF assms(1) p] k have "k < nfiles bs p" by simp
  ultimately show "arch (the_file as p k) = p"
    using assms(2) p l by (simp add: back_ok_def)
qed

text \<open>An architecture that has been drained does not change any more.\<close>

lemma drained_frozen:
  assumes st: "worker_step env ex w s = Some s'" and w: "w < length (workers s)"
    and inv: "inv1 as0 s" and d: "arch_drained (arches s) q" and q: "q < length (arches s)"
  shows "arches s' ! q = arches s ! q"
proof -
  from inv have tok: "\<forall>j. j \<in># tokens s \<longrightarrow> valid_job (arches s) j \<and> \<not> job_done (arches s) j"
    and ok: "\<forall>pc \<in> set (workers s). wpc_ok (arches s) pc"
    by (simp_all add: inv1_def)
  from d have dq: "Arch.done_ch (arches s ! q)" by (simp add: arch_drained_def)
  have fs: "the_file (arches s') q m = the_file (arches s) q m" if "m < nfiles (arches s) q" for m
  proof (cases "Arch.err (arches s ! q) = None")
    case True
    with d that have "File.done_ch (the_file (arches s) q m)" by (simp add: arch_drained_def)
    then show ?thesis by (rule file_stable [OF st w tok])
  next
    case False
    then show ?thesis by (intro file_untouched [OF st w ok]) simp
  qed
  from frame_worker_step [OF st] have n: "nfiles (arches s') q = nfiles (arches s) q" by simp
  have files: "files (arches s' ! q) = files (arches s ! q)"
    using fs n by (auto simp: list_eq_iff_nth_eq the_file_def nfiles_def)
  show ?thesis
    using st
  proof (cases rule: worker_step_cases)
    case (arch p)
    from arch(1) w have "ArchJob p \<in># tokens s"
      by (auto intro!: held_token simp: holds_def expand_def)
    with tok dq have "q \<noteq> p" by auto
    then show ?thesis by (simp add: arch nth_updArch)
  next
    case (archclose p infos)
    from archclose(1) w have "ArchJob p \<in># tokens s"
      by (auto intro!: held_token simp: holds_def expand_def)
    with tok dq have "q \<noteq> p" by auto
    then show ?thesis by (simp add: archclose nth_updArch)
  next
    case (files_next p infos k)
    with files q show ?thesis by (auto simp: nth_updFile)
  next
    case (fileproc p k)
    with files q show ?thesis by (auto simp: nth_updFile)
  next
    case (fileclose p k)
    with files q show ?thesis by (auto simp: nth_updFile)
  qed simp_all
qed

lemma mev_append [simp]: "mev (xs @ ys) = mev xs @ mev ys"
  by (simp add: mev_def)

lemma mev_worker_step:
  assumes "worker_step env ex w s = Some s'"
  shows "mev (trace s') = mev (trace s)"
  using assms
  by (cases rule: worker_step_cases) (simp_all add: mev_def is_worker_event_def)

lemma collect_file_cong:
  assumes "the_file bs i k = the_file as i k"
    and "target (bs ! arch (the_file as i k)) = target (as ! arch (the_file as i k))"
  shows "collect_file env bs i acc k = collect_file env as i acc k"
  using assms by (simp add: collect_file_def Let_def split: prod.splits option.splits)

lemma collect_files_cong:
  assumes "\<And>m. m < k \<Longrightarrow> the_file bs i m = the_file as i m"
    and "\<And>m. m < k \<Longrightarrow> target (bs ! arch (the_file as i m)) = target (as ! arch (the_file as i m))"
  shows "foldl (collect_file env bs i) acc [0..<k] = foldl (collect_file env as i) acc [0..<k]"
  by (rule foldl_cong) (auto intro: collect_file_cong assms)

lemma collect_arch_cong:
  assumes "bs ! i = as ! i" and "back_ok as" and "i < length as"
  shows "collect_arch env os bs acc i = collect_arch env os as acc i"
proof -
  have n: "nfiles bs i = nfiles as i" using assms(1) by (simp add: nfiles_def)
  have f: "the_file bs i m = the_file as i m" for m
    using assms(1) by (simp add: the_file_def)
  have t: "target (bs ! arch (the_file as i m)) = target (as ! arch (the_file as i m))"
    if "m < nfiles as i" for m
    using assms that by (simp add: back_ok_def)
  have h: "arch_head os bs i = arch_head os as i"
    using assms(1) by (simp add: arch_head_def)
  show ?thesis
    unfolding collect_arch_def n h assms(1)
    using collect_files_cong [of "nfiles as i" bs i as env] f t
    by (simp split: option.splits)
qed

lemma collect_upto_cong:
  assumes "\<And>p. p < i \<Longrightarrow> bs ! p = as ! p" and "back_ok as" and "i \<le> length as"
  shows "collect_upto env os bs i = collect_upto env os as i"
  unfolding collect_upto_def
  by (rule foldl_cong) (use assms in \<open>auto intro!: collect_arch_cong\<close>)

lemma collect_upto_Suc:
  "collect_upto env os as (Suc i) = collect_arch env os as (collect_upto env os as i) i"
  by (simp add: collect_upto_def)

lemma coll_ok_worker_step:
  assumes st: "worker_step env ex w s = Some s'" and w: "w < length (workers s)"
    and inv: "inv1 as0 s" and m: "main_ok s" and b: "back_ok as0" and c: "coll_ok env fl s"
  shows "coll_ok env fl s'"
proof (cases "mainpc s' = M_Panic")
  case True
  then show ?thesis by (simp add: coll_ok_def)
next
  case False
  with frame_worker_step [OF st] have pc: "mainpc s' = mainpc s"
    and fr: "failed s' = failed s" "constFiles s' = constFiles s"
    and l: "length (arches s') = length (arches s)"
    by auto
  note me = mev_worker_step [OF st]
  from inv have tok: "\<forall>j. j \<in># tokens s \<longrightarrow> valid_job (arches s) j \<and> \<not> job_done (arches s) j"
    and stat: "map static (arches s) = map static as0"
    by (simp_all add: inv1_def)
  from back_ok_static [OF stat b] have bk: "back_ok (arches s)" .
  have stat': "map static (arches s') = map static (arches s)"
    by (rule static_worker_step [OF st])
  have tg: "target (arches s' ! p) = target (arches s ! p)" if "p < length (arches s)" for p
    using static_nth(1) [OF stat' [symmetric] that] by (simp add: static_def)
  have frozen: "arches s' ! p = arches s ! p"
    if "arch_drained (arches s) p" "p < length (arches s)" for p
    using drained_frozen [OF st w inv that] .
  have upto: "collect_upto env (flagOS fl) (arches s') i = collect_upto env (flagOS fl) (arches s) i"
    if "\<forall>p < i. arch_drained (arches s) p" "i \<le> length (arches s)" for i
    by (rule collect_upto_cong) (use that frozen bk in auto)
  have files: "foldl (collect_file env (arches s') i) acc [0..<k] =
      foldl (collect_file env (arches s) i) acc [0..<k]"
    if "i < length (arches s)" "k \<le> nfiles (arches s) i"
      "\<forall>m < k. File.done_ch (the_file (arches s) i m)" for i k acc
  proof (rule collect_files_cong)
    fix m assume mk: "m < k"
    with that show "the_file (arches s') i m = the_file (arches s) i m"
      by (intro file_stable [OF st w tok]) simp
    from mk that bk have "arch (the_file (arches s) i m) = i"
      by (simp add: back_ok_def)
    with that tg show "target (arches s' ! arch (the_file (arches s) i m)) =
        target (arches s ! arch (the_file (arches s) i m))"
      by simp
  qed
  have head: "arch_head (flagOS fl) (arches s') i = arch_head (flagOS fl) (arches s) i"
    if "i < length (arches s)" for i
    using tg [OF that] by (simp add: arch_head_def)
  show ?thesis
  proof (cases "mainpc s")
    case (M_Arch i)
    with c m upto [of i] show ?thesis
      by (simp add: coll_ok_def Let_def pc fr me main_ok_def)
  next
    case (M_WaitArch i)
    with c m upto [of i] tg [of i] show ?thesis
      by (simp add: coll_ok_def Let_def pc fr me main_ok_def)
  next
    case (M_ArchErr i)
    with c m upto [of i] tg [of i] show ?thesis
      by (simp add: coll_ok_def Let_def pc fr me main_ok_def)
  next
    case (M_File i k)
    with c m upto [of i] head [of i] files [of i k] show ?thesis
      by (simp add: coll_ok_def Let_def pc fr me main_ok_def)
  next
    case (M_FileErr i k)
    with c m upto [of i] head [of i] files [of i k] show ?thesis
      by (simp add: coll_ok_def Let_def pc fr me main_ok_def)
  qed (simp_all add: coll_ok_def pc)
qed

lemma mset_remove_nth:
  "n < length xs \<Longrightarrow> mset (take n xs @ drop (Suc n) xs) + {#xs ! n#} = mset xs"
  by (metis add_mset_add_single id_take_nth_drop mset.simps(2) mset_append union_mset_add_mset_right)

lemma mev_simps [simp]:
  "mev [] = []"
  "mev (Wait j # es) = Wait j # mev es"
  "mev (Read j f # es) = Read j f # mev es"
  "mev (Print_generating a b # es) = Print_generating a b # mev es"
  "mev (Print_arch_err e # es) = Print_arch_err e # mev es"
  "mev (Print_file_err a e # es) = Print_file_err a e # mev es"
  "mev (Print_unsupported a b # es) = Print_unsupported a b # mev es"
  "mev (CallCheck # es) = CallCheck # mev es"
  "mev (Serialized a # es) = Serialized a # mev es"
  "mev (Removed a # es) = Removed a # mev es"
  "mev (Wrote a b r # es) = Wrote a b r # mev es"
  "mev (RemovedAll a # es) = RemovedAll a # mev es"
  by (simp_all add: mev_def is_worker_event_def)

lemma mev_check_reads [simp]: "mev (check_reads as) = check_reads as"
  by (auto simp: mev_def check_reads_def is_worker_event_def filter_id_conv)

lemma mev_unsupported [simp]:
  "mev (map (\<lambda>(f, n). Print_unsupported f n) xs) = map (\<lambda>(f, n). Print_unsupported f n) xs"
  by (auto simp: mev_def is_worker_event_def filter_id_conv)

lemma cleanup_events_Suc:
  "i < length as \<Longrightarrow>
   cleanup_events as (Suc i) =
     cleanup_events as i @ (if build (as ! i) then [RemovedAll (buildDir (as ! i))] else [])"
  by (simp add: cleanup_events_def take_Suc_conv_app_nth)

lemma coll_ok_main_step:
  assumes st: "main_step env fl n s = Some s'" and m: "main_ok s" and c: "coll_ok env fl s"
  shows "coll_ok env fl s'"
  using st c m
  by (cases rule: main_step_cases)
     (auto simp: coll_ok_def Let_def add_out_def collect_upto_Suc collect_arch_def arch_head_def
        collect_file_def main_ok_def nfiles_def split: prod.splits)

lemma late_ok_WriteI:
  assumes "mainpc s' = M_Write rest" and "arches s' = as"
    and "failed s' = fst (collect env (flagOS fl) as)"
    and "constFiles s' = fst (snd (collect env (flagOS fl) as))"
    and "mset dn + mset rest = mset (fst (snd (collect env (flagOS fl) as)))"
    and "\<forall>x \<in> set dn. \<not> write_fails env fl x"
    and "mev (trace s') = snd (snd (collect env (flagOS fl) as)) @ concat (map (write_events env fl) dn)"
  shows "late_ok env fl s'"
  unfolding late_ok_def Let_def using assms by auto

lemma late_ok_FailfI:
  assumes "mainpc s' = M_Failf m" and "arches s' = as"
    and "failed s' = fst (collect env (flagOS fl) as)"
    and "constFiles s' = fst (snd (collect env (flagOS fl) as))"
    and "mset dn + {#x#} \<subseteq># mset (fst (snd (collect env (flagOS fl) as)))"
    and "\<forall>x \<in> set dn. \<not> write_fails env fl x" and "write_fails env fl x"
    and "mev (trace s') = snd (snd (collect env (flagOS fl) as)) @
           concat (map (write_events env fl) dn) @ write_events env fl x"
  shows "late_ok env fl s'"
  unfolding late_ok_def Let_def using assms by (simp del: split_paired_Ex) blast

lemma late_ok_main_step:
  assumes st: "main_step env fl n s = Some s'" and m: "main_ok s" and c: "coll_ok env fl s"
    and l: "late_ok env fl s"
  shows "late_ok env fl s'"
  using st
proof (cases rule: main_step_cases)
  case (arch_end i)
  with m have "i = length (arches s)" by (simp add: main_ok_def)
  with c arch_end have "(failed s, constFiles s, mev (trace s)) = collect env (flagOS fl) (arches s)"
    by (simp add: coll_ok_def collect_def)
  then have "failed s = fst (collect env (flagOS fl) (arches s))"
    "constFiles s = fst (snd (collect env (flagOS fl) (arches s)))"
    "mev (trace s) = snd (snd (collect env (flagOS fl) (arches s)))"
    by (metis fst_conv snd_conv)+
  then show ?thesis
    unfolding late_ok_def Let_def arch_end
    by (auto intro!: exI [of _ "[]"])
next
  case write_end
  with l show ?thesis
    by (auto simp: late_ok_def Let_def)
next
  case (write_remove todo fname cf)
  from l write_remove(1) obtain dn where
    dn: "mset dn + mset todo = mset (fst (snd (collect env (flagOS fl) (arches s))))"
      "\<forall>x \<in> set dn. \<not> write_fails env fl x"
      "mev (trace s) = snd (snd (collect env (flagOS fl) (arches s))) @ concat (map (write_events env fl) dn)"
    and f: "failed s = fst (collect env (flagOS fl) (arches s))"
      "constFiles s = fst (snd (collect env (flagOS fl) (arches s)))"
    by (auto simp: late_ok_def Let_def)
  let ?rest = "take n todo @ drop (Suc n) todo"
  have A: "mset (dn @ [(fname, cf)]) + mset ?rest = mset (fst (snd (collect env (flagOS fl) (arches s))))"
    using dn(1) mset_remove_nth [OF write_remove(2)] write_remove(3)
    by (simp add: ac_simps) (metis add_mset_add_single union_mset_add_mset_right)
  have B: "\<forall>x \<in> set (dn @ [(fname, cf)]). \<not> write_fails env fl x"
    using dn(2) write_remove(4) by (simp add: write_fails_def)
  have C: "mev (trace s') = snd (snd (collect env (flagOS fl) (arches s))) @
      concat (map (write_events env fl) (dn @ [(fname, cf)]))"
    using dn(3) write_remove(4) by (simp add: write_remove(5) write_events_def outname_def)
  show ?thesis
  proof (rule late_ok_WriteI [where dn = "dn @ [(fname, cf)]" and as = "arches s" and rest = ?rest])
    show "mainpc s' = M_Write ?rest" "arches s' = arches s"
      "failed s' = fst (collect env (flagOS fl) (arches s))"
      "constFiles s' = fst (snd (collect env (flagOS fl) (arches s)))"
      using f by (simp_all add: write_remove(5))
  qed (fact A B C)+
next
  case (write_fail todo fname cf e)
  from l write_fail(1) obtain dn where
    dn: "mset dn + mset todo = mset (fst (snd (collect env (flagOS fl) (arches s))))"
      "\<forall>x \<in> set dn. \<not> write_fails env fl x"
      "mev (trace s) = snd (snd (collect env (flagOS fl) (arches s))) @ concat (map (write_events env fl) dn)"
    and f: "failed s = fst (collect env (flagOS fl) (arches s))"
      "constFiles s = fst (snd (collect env (flagOS fl) (arches s)))"
    by (auto simp: late_ok_def Let_def)
  have "(fname, cf) \<in># mset todo"
    using write_fail(2,3) by (metis nth_mem set_mset_mset)
  then have "mset dn + {#(fname, cf)#} \<subseteq># mset dn + mset todo"
    by (simp add: mset_subset_eq_mono_add_left_cancel)
  then have A: "mset dn + {#(fname, cf)#} \<subseteq># mset (fst (snd (collect env (flagOS fl) (arches s))))"
    by (simp add: dn(1))
  have B: "write_fails env fl (fname, cf)"
    using write_fail(4,5) by (simp add: write_fails_def outname_def)
  have C: "mev (trace s') = snd (snd (collect env (flagOS fl) (arches s))) @
      concat (map (write_events env fl) dn) @ write_events env fl (fname, cf)"
    using dn(3) write_fail(4,5) by (simp add: write_fail(6) write_events_def outname_def)
  show ?thesis
  proof (rule late_ok_FailfI [where dn = dn and x = "(fname, cf)" and as = "arches s"])
    show "mainpc s' = M_Failf (''failed to write output file: '' @ e)" "arches s' = arches s"
      "failed s' = fst (collect env (flagOS fl) (arches s))"
      "constFiles s' = fst (snd (collect env (flagOS fl) (arches s)))"
      using f by (simp_all add: write_fail(6))
  qed (fact A B C dn(2))+
next
  case (write_ok todo fname cf)
  from l write_ok(1) obtain dn where
    dn: "mset dn + mset todo = mset (fst (snd (collect env (flagOS fl) (arches s))))"
      "\<forall>x \<in> set dn. \<not> write_fails env fl x"
      "mev (trace s) = snd (snd (collect env (flagOS fl) (arches s))) @ concat (map (write_events env fl) dn)"
    and f: "failed s = fst (collect env (flagOS fl) (arches s))"
      "constFiles s = fst (snd (collect env (flagOS fl) (arches s)))"
    by (auto simp: late_ok_def Let_def)
  let ?rest = "take n todo @ drop (Suc n) todo"
  have A: "mset (dn @ [(fname, cf)]) + mset ?rest = mset (fst (snd (collect env (flagOS fl) (arches s))))"
    using dn(1) mset_remove_nth [OF write_ok(2)] write_ok(3)
    by (simp add: ac_simps) (metis add_mset_add_single union_mset_add_mset_right)
  have B: "\<forall>x \<in> set (dn @ [(fname, cf)]). \<not> write_fails env fl x"
    using dn(2) write_ok(4,5) by (simp add: write_fails_def outname_def)
  have C: "mev (trace s') = snd (snd (collect env (flagOS fl) (arches s))) @
      concat (map (write_events env fl) (dn @ [(fname, cf)]))"
    using dn(3) write_ok(4,5) by (simp add: write_ok(6) write_events_def outname_def)
  show ?thesis
  proof (rule late_ok_WriteI [where dn = "dn @ [(fname, cf)]" and as = "arches s" and rest = ?rest])
    show "mainpc s' = M_Write ?rest" "arches s' = arches s"
      "failed s' = fst (collect env (flagOS fl) (arches s))"
      "constFiles s' = fst (snd (collect env (flagOS fl) (arches s)))"
      using f by (simp_all add: write_ok(6))
  qed (fact A B C)+
next
  case check_run
  with l show ?thesis
    by (auto simp: late_ok_def Let_def check_failed_def check_events_def check_runs_def
        cleanup_events_def)
next
  case check_skip
  with l show ?thesis
    by (auto simp: late_ok_def Let_def check_failed_def check_events_def check_runs_def
        cleanup_events_def)
next
  case (cleanup_rm i)
  with l show ?thesis
    by (auto simp: late_ok_def Let_def cleanup_events_Suc)
next
  case (cleanup_skip i)
  with l show ?thesis
    by (auto simp: late_ok_def Let_def cleanup_events_Suc)
next
  case (cleanup_end i)
  with l show ?thesis
    by (auto simp: late_ok_def Let_def)
qed (simp_all add: late_ok_def)

lemma all_drained_frozen:
  assumes st: "worker_step env ex w s = Some s'" and w: "w < length (workers s)"
    and inv: "inv1 as0 s" and d: "\<forall>p < length (arches s). arch_drained (arches s) p"
  shows "arches s' = arches s"
proof (rule nth_equalityI)
  show "length (arches s') = length (arches s)"
    using frame_worker_step [OF st] by simp
  fix q assume "q < length (arches s')"
  then have "q < length (arches s)" using frame_worker_step [OF st] by simp
  with d show "arches s' ! q = arches s ! q"
    by (intro drained_frozen [OF st w inv]) auto
qed

lemma late_ok_worker_step:
  assumes st: "worker_step env ex w s = Some s'" and w: "w < length (workers s)"
    and inv: "inv1 as0 s" and m: "main_ok s" and l: "late_ok env fl s"
  shows "late_ok env fl s'"
proof (cases "mainpc s' = M_Panic")
  case True
  then show ?thesis by (simp add: late_ok_def)
next
  case False
  with frame_worker_step [OF st] have pc: "mainpc s' = mainpc s"
    and fr: "failed s' = failed s" "constFiles s' = constFiles s"
    by auto
  note me = mev_worker_step [OF st]
  show ?thesis
  proof (cases "\<forall>p < length (arches s). arch_drained (arches s) p")
    case True
    from all_drained_frozen [OF st w inv True] l show ?thesis
      by (cases "mainpc s") (simp_all add: late_ok_def Let_def pc fr me)
  next
    case False
    with m show ?thesis
      by (cases "mainpc s") (simp_all add: late_ok_def pc main_ok_def)
  qed
qed

text \<open>What createArches returns is fresh, with the back pointers in place.\<close>

lemma createArches_fresh:
  assumes "createArches env fl os archArray fs = Inr as"
  shows "fresh as \<and> back_ok as"
proof -
  from assms obtain allFiles where
    loop: "createArches_loop env fl os fs allFiles [] archArray = Inr as"
    by (auto simp: createArches_def split: prod.splits option.splits)
  note P = createArches_loop_props [OF loop, simplified]
  have f: "files (as ! p) = map (newFile p) (archFiles fs allFiles (archArray ! p))"
    and d: "\<not> Arch.done_ch (as ! p)"
    if "p < length as" for p
    using P that by simp_all
  show ?thesis
    unfolding fresh_def back_ok_def
    by (auto simp: f d nfiles_def the_file_def newFile_def)
qed

lemma main_setup_fresh:
  assumes "main_setup env fl = Inr (ex, as)"
  shows "fresh as \<and> back_ok as"
  using assms createArches_fresh [of env fl "flagOS fl" "archList env (flagOS fl) (flagArch fl)" "Args fl" as]
  by (auto simp: main_setup_def split: if_splits option.splits sum.splits)

lemma reachable_main_spec:
  assumes "fresh as0" and "back_ok as0" and "reachable env fl ex as0 s"
  shows "main_spec env fl s"
  using assms(3)
proof (induction rule: reachable.induct)
  case r_init
  show ?case
    by (simp add: main_spec_def main_ok_init)
       (simp add: coll_ok_def late_ok_def init_def collect_upto_def mev_def)
next
  case (r_step s t s')
  note inv = reachable_inv1 [OF assms(1) r_step.hyps(1)]
  from r_step.hyps(2) show ?case
  proof (cases rule: step_cases)
    case (main n)
    with r_step.IH show ?thesis
      by (auto simp: main_spec_def intro: main_ok_main_step coll_ok_main_step late_ok_main_step)
  next
    case (worker w)
    with r_step.IH inv assms(2) show ?thesis
      by (auto simp: main_spec_def
          intro: main_ok_worker_step coll_ok_worker_step late_ok_worker_step)
  qed
qed

lemma collect_files_eq:
  "foldl (collect_file env as i) (fl, cfs, out) [0..<k] =
     (fl \<or> (\<exists>m < k. File.err (the_file as i m) \<noteq> None),
      foldl (add_table env as) cfs
        (map (Pair i) (filter (\<lambda>m. File.err (the_file as i m) = None) [0..<k])),
      out @ concat (map (file_events as i) [0..<k]))"
proof (induction k)
  case 0
  then show ?case by simp
next
  case (Suc k)
  then show ?case
    by (auto simp: collect_file_def Let_def file_events_def add_table_def less_Suc_eq
        split: option.splits)
qed

lemma collect_arch_eq:
  "collect_arch env os as (fl, cfs, out) i =
     (fl \<or> Arch.err (as ! i) \<noteq> None \<or> (\<exists>m < nfiles as i. File.err (the_file as i m) \<noteq> None),
      foldl (add_table env as) cfs
        (if Arch.err (as ! i) = None
         then map (Pair i) (filter (\<lambda>k. File.err (the_file as i k) = None) [0..<nfiles as i])
         else []),
      out @ arch_events os as i)"
  by (auto simp: collect_arch_def add_out_def collect_files_eq arch_events_def split: option.splits)

lemma collect_upto_eq:
  "collect_upto env os as i =
     (\<exists>p < i. Arch.err (as ! p) \<noteq> None \<or> (\<exists>m < nfiles as p. File.err (the_file as p m) \<noteq> None),
      foldl (add_table env as) []
        (concat (map (\<lambda>p. if Arch.err (as ! p) = None
                       then map (Pair p) (filter (\<lambda>k. File.err (the_file as p k) = None)
                                            [0..<nfiles as p])
                       else [])
               [0..<i])),
      concat (map (arch_events os as) [0..<i]))"
proof (induction i)
  case 0
  then show ?case by (simp add: collect_upto_def)
next
  case (Suc i)
  show ?case
    unfolding collect_upto_Suc Suc collect_arch_eq
    by (auto simp: less_Suc_eq)
qed

lemma collect_eq:
  "collect env os as =
     (\<not> no_job_error as, foldl (add_table env as) [] (good_files as),
      concat (map (arch_events os as) [0..<length as]))"
  unfolding collect_def collect_upto_eq good_files_def no_job_error_def by auto

lemma keys_fold_update:
  "fst ` set (foldl (\<lambda>m n. AList.update n (v n) m) m ns) = fst ` set m \<union> set ns"
  by (induction ns arbitrary: m) (auto simp: dom_update)

lemma true_fold_update:
  "\<forall>x \<in> set m. snd x \<Longrightarrow> \<forall>x \<in> set (foldl (\<lambda>m n. AList.update n True m) m ns). snd x"
proof (induction ns arbitrary: m)
  case Nil
  then show ?case by simp
next
  case (Cons n ns)
  have "\<forall>x \<in> set (AList.update n True m). snd x"
    using Cons.prems by (induction m) auto
  from Cons.IH [OF this] show ?case by simp
qed

lemma scanFile_keys:
  "fst ` set (fst (scanFile maps f)) = fst ` set (fst maps) \<union> fst ` set (file_consts f)"
  "fst ` set (snd (scanFile maps f)) = fst ` set (snd maps) \<union> fst ` set (undeclared f)"
  "\<forall>x \<in> set (fst maps). snd x \<Longrightarrow> \<forall>x \<in> set (fst (scanFile maps f)). snd x"
  using keys_fold_update [of "\<lambda>n. True" "fst maps" "map fst (file_consts f)"]
    keys_fold_update [of "\<lambda>n. name f" "snd maps" "map fst (undeclared f)"]
    true_fold_update [of "fst maps" "map fst (file_consts f)"]
  by (simp_all add: scanFile_def Let_def)

lemma scanFiles_keys:
  "fst ` set (fst (foldl scanFile maps fs)) =
     fst ` set (fst maps) \<union> {n. \<exists>f \<in> set fs. n \<in> fst ` set (file_consts f)}"
  "fst ` set (snd (foldl scanFile maps fs)) =
     fst ` set (snd maps) \<union> {n. \<exists>f \<in> set fs. n \<in> fst ` set (undeclared f)}"
  "\<forall>x \<in> set (fst maps). snd x \<Longrightarrow> \<forall>x \<in> set (fst (foldl scanFile maps fs)). snd x"
proof (induction fs arbitrary: maps)
  case Nil
  { case 1 show ?case by simp }
  { case 2 show ?case by simp }
  { case 3 then show ?case by simp }
next
  case (Cons f fs)
  { case 1 show ?case
      unfolding foldl_Cons Cons.IH(1) scanFile_keys(1) by auto }
  { case 2 show ?case
      unfolding foldl_Cons Cons.IH(2) scanFile_keys(2) by auto }
  { case 3 then show ?case
      unfolding foldl_Cons by (intro Cons.IH(3) scanFile_keys(3)) }
qed

lemma names_Cons:
  "resolved_names (a # as) =
     {n. \<exists>f \<in> set (files a). n \<in> fst ` set (file_consts f)} \<union> resolved_names as"
  "undeclared_names (a # as) =
     {n. \<exists>f \<in> set (files a). n \<in> fst ` set (undeclared f)} \<union> undeclared_names as"
  by (auto simp: resolved_names_def undeclared_names_def)

lemma scanArches_resolved:
  "fst ` set (fst (foldl (\<lambda>maps a. foldl scanFile maps (files a)) maps as)) =
     fst ` set (fst maps) \<union> resolved_names as"
proof (induction as arbitrary: maps)
  case Nil
  then show ?case by (simp add: resolved_names_def)
next
  case (Cons a as)
  show ?case
    by (simp add: Cons.IH scanFiles_keys(1) names_Cons Un_assoc)
qed

lemma scanArches_undeclared:
  "fst ` set (snd (foldl (\<lambda>maps a. foldl scanFile maps (files a)) maps as)) =
     fst ` set (snd maps) \<union> undeclared_names as"
proof (induction as arbitrary: maps)
  case Nil
  then show ?case by (simp add: undeclared_names_def)
next
  case (Cons a as)
  show ?case
    by (simp add: Cons.IH scanFiles_keys(2) names_Cons Un_assoc)
qed

lemma scanArches_true:
  "\<forall>x \<in> set (fst maps). snd x \<Longrightarrow>
   \<forall>x \<in> set (fst (foldl (\<lambda>maps a. foldl scanFile maps (files a)) maps as)). snd x"
proof (induction as arbitrary: maps)
  case Nil
  then show ?case by simp
next
  case (Cons a as)
  from scanFiles_keys(3) [OF Cons.prems] have "\<forall>x \<in> set (fst (foldl scanFile maps (files a))). snd x" .
  from Cons.IH [OF this] show ?case by simp
qed

lemma scanArches_keys:
  "fst ` set (fst (scanArches as)) = resolved_names as"
  "fst ` set (snd (scanArches as)) = undeclared_names as"
  "\<forall>x \<in> set (fst (scanArches as)). snd x"
  using scanArches_resolved [of "([], [])" as] scanArches_undeclared [of "([], [])" as]
    scanArches_true [of "([], [])" as]
  by (simp_all add: scanArches_def)

lemma supported_lookup:
  "(case map_of (fst (scanArches as)) n of Some b \<Rightarrow> b | None \<Rightarrow> False) \<longleftrightarrow> n \<in> resolved_names as"
proof (cases "map_of (fst (scanArches as)) n")
  case None
  then have "n \<notin> fst ` set (fst (scanArches as))"
    by (simp add: map_of_eq_None_iff)
  with None show ?thesis by (simp add: scanArches_keys)
next
  case (Some b)
  then have m: "(n, b) \<in> set (fst (scanArches as))" by (rule map_of_SomeD)
  then have "n \<in> fst ` set (fst (scanArches as))" by force
  then have "n \<in> resolved_names as" by (simp add: scanArches_keys)
  moreover from m scanArches_keys(3) [of as] have b by force
  ultimately show ?thesis using Some by simp
qed

text \<open>The names the check reports: undeclared somewhere, resolved nowhere.\<close>

lemma snd_swap_image: "snd ` set (map (\<lambda>(n, f). (f, n)) xs) = fst ` set xs"
  by (induction xs) auto

lemma unsupportedReport_names:
  "snd ` set (unsupportedReport as) = undeclared_names as - resolved_names as"
proof (cases "scanArches as")
  case (Pair sup uns)
  have h: "(case map_of sup n of Some b \<Rightarrow> b | None \<Rightarrow> False) \<longleftrightarrow> n \<in> resolved_names as" for n
    using supported_lookup [of as n] Pair by simp
  have "filter (\<lambda>(n, f). \<not> (case map_of sup n of Some b \<Rightarrow> b | None \<Rightarrow> False)) uns =
      filter (\<lambda>(n, f). n \<notin> resolved_names as) uns"
    by (rule filter_cong) (auto simp: h)
  then have "unsupportedReport as = map (\<lambda>(n, f). (f, n)) (filter (\<lambda>(n, f). n \<notin> resolved_names as) uns)"
    by (simp add: unsupportedReport_def Pair)
  then have "snd ` set (unsupportedReport as) = fst ` {x \<in> set uns. fst x \<notin> resolved_names as}"
    by (simp add: case_prod_unfold image_image)
  also have "\<dots> = {n \<in> fst ` set uns. n \<notin> resolved_names as}"
    by auto
  also have "fst ` set uns = undeclared_names as"
    using scanArches_keys(2) [of as] Pair by simp
  finally show ?thesis by auto
qed

lemma pipeline_reachable:
  assumes "pipeline env fl ts = Some s"
  obtains ex as0 where "main_setup env fl = Inr (ex, as0)" "fresh as0" "back_ok as0"
    "reachable env fl ex as0 s"
proof -
  from assms obtain ex as0 where ms: "main_setup env fl = Inr (ex, as0)"
    and r: "run env fl ex (init env as0) ts = Some s"
    by (auto simp: pipeline_def split: sum.splits)
  from run_reachable [OF r_init r] have "reachable env fl ex as0 s" .
  with ms main_setup_fresh [OF ms] that show ?thesis by blast
qed

lemma pipeline_invs:
  assumes "pipeline env fl ts = Some s"
  shows "main_ok s" "coll_ok env fl s" "late_ok env fl s" "mainpc s \<noteq> M_Panic"
proof -
  from assms obtain ex as0 where *: "fresh as0" "back_ok as0" "reachable env fl ex as0 s"
    by (rule pipeline_reachable)
  from reachable_main_spec [OF *] show "main_ok s" "coll_ok env fl s" "late_ok env fl s"
    by (simp_all add: main_spec_def)
  from reachable_inv1 [OF *(1,3)] show "mainpc s \<noteq> M_Panic"
    by (simp add: inv1_def)
qed

lemma in_mev: "e \<in> set (mev tr) \<longleftrightarrow> e \<in> set tr \<and> \<not> is_worker_event e"
  by (auto simp: mev_def)

lemma filter_mev: "(\<And>e. P e \<Longrightarrow> \<not> is_worker_event e) \<Longrightarrow> filter P (mev tr) = filter P tr"
  unfolding mev_def filter_filter by (rule filter_cong) auto

lemma file_events_coll: "e \<in> set (file_events as p k) \<Longrightarrow> is_coll e"
  by (auto simp: file_events_def is_coll_def split: option.splits)

lemma arch_events_coll: "e \<in> set (arch_events os as p) \<Longrightarrow> is_coll e"
  by (auto simp: arch_events_def arch_head_def is_coll_def dest: file_events_coll split: option.splits)

lemma collect_upto_out_coll: "e \<in> set (snd (snd (collect_upto env os as i))) \<Longrightarrow> is_coll e"
  by (auto simp: collect_upto_eq dest: arch_events_coll)

lemma collect_files_out:
  "snd (snd (foldl (collect_file env as i) acc [0..<k])) =
     snd (snd acc) @ concat (map (file_events as i) [0..<k])"
  by (cases acc) (simp add: collect_files_eq)

text \<open>While main is in the loop of line 101, it has produced collection events only.\<close>

lemma coll_phase_events:
  assumes c: "coll_ok env fl s"
    and pc: "case mainpc s of M_Arch i \<Rightarrow> True | M_WaitArch i \<Rightarrow> True | M_ArchErr i \<Rightarrow> True
              | M_File i k \<Rightarrow> True | M_FileErr i k \<Rightarrow> True | _ \<Rightarrow> False"
    and e: "e \<in> set (mev (trace s))"
  shows "is_coll e"
proof -
  have up: "is_coll e" if "e \<in> set (snd (snd (collect_upto env (flagOS fl) (arches s) i)))" for i
    using that by (rule collect_upto_out_coll)
  have hd: "is_coll e" if "e \<in> set (arch_head (flagOS fl) (arches s) i)" for i
    using that by (auto simp: arch_head_def is_coll_def)
  have ao: "snd (snd (add_out acc es)) = snd (snd acc) @ es" for acc :: "'b acc" and es
    by (cases acc) (simp add: add_out_def)
  have sn: "x = snd (snd acc)" if "(a, b, x) = acc" for a b x and acc :: "'b acc"
    using that by auto
  show ?thesis
  proof (cases "mainpc s")
    case (M_Arch i)
    with c have "mev (trace s) = snd (snd (collect_upto env (flagOS fl) (arches s) i))"
      by (intro sn) (simp add: coll_ok_def Let_def)
    with e up show ?thesis by simp
  next
    case (M_WaitArch i)
    with c have "mev (trace s) = snd (snd (add_out (collect_upto env (flagOS fl) (arches s) i)
        [Print_generating (flagOS fl) (Arch (target (arches s ! i)))]))"
      by (intro sn) (simp add: coll_ok_def Let_def)
    with e up show ?thesis by (auto simp: is_coll_def ao)
  next
    case (M_ArchErr i)
    with c have "mev (trace s) = snd (snd (add_out (collect_upto env (flagOS fl) (arches s) i)
        [Print_generating (flagOS fl) (Arch (target (arches s ! i))), Wait (ArchJob i)]))"
      by (intro sn) (simp add: coll_ok_def Let_def)
    with e up show ?thesis by (auto simp: is_coll_def ao)
  next
    case (M_File i k)
    with c have "mev (trace s) = snd (snd (foldl (collect_file env (arches s) i)
        (add_out (collect_upto env (flagOS fl) (arches s) i) (arch_head (flagOS fl) (arches s) i))
        [0..<k]))"
      by (intro sn) (simp add: coll_ok_def Let_def)
    with e up hd show ?thesis by (auto simp: collect_files_out ao dest: file_events_coll)
  next
    case (M_FileErr i k)
    with c have "mev (trace s) = snd (snd (add_out (foldl (collect_file env (arches s) i)
        (add_out (collect_upto env (flagOS fl) (arches s) i) (arch_head (flagOS fl) (arches s) i))
        [0..<k]) [Wait (FileJob i k)]))"
      by (intro sn) (simp add: coll_ok_def Let_def)
    with e up hd show ?thesis by (auto simp: collect_files_out ao is_coll_def dest: file_events_coll)
  qed (use pc in simp_all)
qed

lemma filter_concat_map: "filter P (concat (map f xs)) = concat (map (\<lambda>x. filter P (f x)) xs)"
  by (induction xs) simp_all

lemma filter_wait_file_events: "filter is_wait (file_events as p k) = [Wait (FileJob p k)]"
  by (simp add: file_events_def is_wait_def split: option.splits)

lemma filter_wait_arch_events:
  "filter is_wait (arch_events os as p) =
     Wait (ArchJob p) # (if Arch.err (as ! p) = None
                         then map (\<lambda>k. Wait (FileJob p k)) [0..<nfiles as p] else [])"
proof -
  have "concat (map (\<lambda>k. [Wait (FileJob p k)]) ks) = map (\<lambda>k. Wait (FileJob p k)) ks" for ks
    by (induction ks) simp_all
  moreover have "filter is_wait (arch_head os as p) = [Wait (ArchJob p)]"
    by (simp add: arch_head_def is_wait_def)
  moreover have "filter is_wait [Print_arch_err e] = []" for e
    by (simp add: is_wait_def)
  ultimately show ?thesis
    by (simp add: arch_events_def filter_concat_map filter_wait_file_events split: option.splits)
qed

lemma filter_wait_out0:
  "filter is_wait (concat (map (arch_events os as) [0..<n])) =
     concat (map (\<lambda>p. Wait (ArchJob p) #
                       (if Arch.err (as ! p) = None
                        then map (\<lambda>k. Wait (FileJob p k)) [0..<nfiles as p] else []))
               [0..<n])"
  by (simp add: filter_concat_map filter_wait_arch_events)

lemma filter_diag_file_events:
  "filter is_diag (file_events as p k) =
     (case File.err (the_file as p k) of
        Some e \<Rightarrow> [Print_file_err (name (the_file as p k)) e] | None \<Rightarrow> [])"
  by (simp add: file_events_def is_diag_def split: option.splits)

lemma filter_diag_arch_events:
  "filter is_diag (arch_events os as p) =
     Print_generating os (Arch (target (as ! p))) #
       (case Arch.err (as ! p) of
          Some e \<Rightarrow> [Print_arch_err e]
        | None \<Rightarrow>
            concat (map (\<lambda>k. case File.err (the_file as p k) of
                                Some e \<Rightarrow> [Print_file_err (name (the_file as p k)) e]
                              | None \<Rightarrow> [])
                      [0..<nfiles as p]))"
proof -
  have "filter is_diag (arch_head os as p) = [Print_generating os (Arch (target (as ! p)))]"
    by (simp add: arch_head_def is_diag_def)
  moreover have "filter is_diag [Print_arch_err e] = [Print_arch_err e]" for e
    by (simp add: is_diag_def)
  ultimately show ?thesis
    by (simp add: arch_events_def filter_concat_map filter_diag_file_events split: option.splits)
qed

lemma filter_write_events [simp]:
  "filter is_wait (write_events env fl x) = []" "filter is_diag (write_events env fl x) = []"
  "filter is_rm (write_events env fl x) = []" "filter is_fs (write_events env fl x) = write_events env fl x"
  "CallCheck \<notin> set (write_events env fl x)" "Print_unsupported f n \<notin> set (write_events env fl x)"
  by (simp_all add: write_events_def is_wait_def is_diag_def is_rm_def is_fs_def)

lemma filter_writes [simp]:
  "filter is_wait (concat (map (write_events env fl) dn)) = []"
  "filter is_diag (concat (map (write_events env fl) dn)) = []"
  "filter is_rm (concat (map (write_events env fl) dn)) = []"
  "filter is_fs (concat (map (write_events env fl) dn)) = concat (map (write_events env fl) dn)"
  "CallCheck \<notin> set (concat (map (write_events env fl) dn))"
  "Print_unsupported f n \<notin> set (concat (map (write_events env fl) dn))"
  by (induction dn) simp_all

lemma filter_check_events [simp]:
  "filter is_wait (check_events fl as f0) = []" "filter is_diag (check_events fl as f0) = []"
  "filter is_rm (check_events fl as f0) = []" "filter is_fs (check_events fl as f0) = []"
  by (auto simp: check_events_def check_reads_def is_wait_def is_diag_def is_rm_def is_fs_def
      filter_empty_conv)

lemma filter_cleanup_events [simp]:
  "filter is_wait (cleanup_events as i) = []" "filter is_diag (cleanup_events as i) = []"
  "filter is_rm (cleanup_events as i) = cleanup_events as i" "filter is_fs (cleanup_events as i) = []"
  "CallCheck \<notin> set (cleanup_events as i)" "Print_unsupported f n \<notin> set (cleanup_events as i)"
  by (auto simp: cleanup_events_def is_wait_def is_diag_def is_rm_def is_fs_def filter_empty_conv
      filter_id_conv)

lemma filter_out0 [simp]:
  "filter is_rm (concat (map (arch_events os as) ps)) = []"
  "filter is_fs (concat (map (arch_events os as) ps)) = []"
  "CallCheck \<notin> set (concat (map (arch_events os as) ps))"
  "Print_unsupported f n \<notin> set (concat (map (arch_events os as) ps))"
  by (auto simp: filter_empty_conv is_rm_def is_fs_def dest!: arch_events_coll simp: is_coll_def
      split: event.splits)

text \<open>What main has done once it has left the loop of line 101, phase by phase.\<close>

lemma late_explicit:
  assumes p: "pipeline env fl ts = Some s"
  shows "collected (mainpc s) \<Longrightarrow>
           constFiles s = foldl (add_table env (arches s)) [] (good_files (arches s)) \<and>
           (\<forall>p < length (arches s). arch_drained (arches s) p)"
    and "mainpc s = M_Write todo \<Longrightarrow>
           failed s = (\<not> no_job_error (arches s)) \<and>
           (\<exists>dn. mset dn + mset todo = mset (constFiles s) \<and> (\<forall>x \<in> set dn. \<not> write_fails env fl x) \<and>
              mev (trace s) = concat (map (arch_events (flagOS fl) (arches s)) [0..<length (arches s)]) @
                 concat (map (write_events env fl) dn))"
    and "mainpc s = M_Failf m \<Longrightarrow>
           failed s = (\<not> no_job_error (arches s)) \<and>
           (\<exists>dn x. mset dn + {#x#} \<subseteq># mset (constFiles s) \<and> (\<forall>y \<in> set dn. \<not> write_fails env fl y) \<and>
              write_fails env fl x \<and>
              mev (trace s) = concat (map (arch_events (flagOS fl) (arches s)) [0..<length (arches s)]) @
                 concat (map (write_events env fl) dn) @ write_events env fl x)"
    and "mainpc s = M_Check \<Longrightarrow>
           failed s = (\<not> no_job_error (arches s)) \<and>
           (\<exists>dn. mset dn = mset (constFiles s) \<and> (\<forall>x \<in> set dn. \<not> write_fails env fl x) \<and>
              mev (trace s) = concat (map (arch_events (flagOS fl) (arches s)) [0..<length (arches s)]) @
                 concat (map (write_events env fl) dn))"
    and "mainpc s = M_Cleanup i \<Longrightarrow>
           i \<le> length (arches s) \<and>
           failed s = check_failed fl (arches s) (\<not> no_job_error (arches s)) \<and>
           (\<exists>dn. mset dn = mset (constFiles s) \<and> (\<forall>x \<in> set dn. \<not> write_fails env fl x) \<and>
              mev (trace s) = concat (map (arch_events (flagOS fl) (arches s)) [0..<length (arches s)]) @
                 concat (map (write_events env fl) dn) @
                 check_events fl (arches s) (\<not> no_job_error (arches s)) @ cleanup_events (arches s) i)"
    and "mainpc s = M_Exit c \<Longrightarrow>
           c = (if check_failed fl (arches s) (\<not> no_job_error (arches s)) then 1 else 0) \<and>
           (\<exists>dn. mset dn = mset (constFiles s) \<and> (\<forall>x \<in> set dn. \<not> write_fails env fl x) \<and>
              mev (trace s) = concat (map (arch_events (flagOS fl) (arches s)) [0..<length (arches s)]) @
                 concat (map (write_events env fl) dn) @
                 check_events fl (arches s) (\<not> no_job_error (arches s)) @
                 cleanup_events (arches s) (length (arches s)))"
proof -
  note i = pipeline_invs [OF p]
  show "collected (mainpc s) \<Longrightarrow>
           constFiles s = foldl (add_table env (arches s)) [] (good_files (arches s)) \<and>
           (\<forall>p < length (arches s). arch_drained (arches s) p)"
    using i(1,3) by (cases "mainpc s") (auto simp: collected_def late_ok_def main_ok_def Let_def collect_eq)
  show "mainpc s = M_Write todo \<Longrightarrow>
           failed s = (\<not> no_job_error (arches s)) \<and>
           (\<exists>dn. mset dn + mset todo = mset (constFiles s) \<and> (\<forall>x \<in> set dn. \<not> write_fails env fl x) \<and>
              mev (trace s) = concat (map (arch_events (flagOS fl) (arches s)) [0..<length (arches s)]) @
                 concat (map (write_events env fl) dn))"
    using i(3) by (auto simp: late_ok_def Let_def collect_eq)
  show "mainpc s = M_Failf m \<Longrightarrow>
           failed s = (\<not> no_job_error (arches s)) \<and>
           (\<exists>dn x. mset dn + {#x#} \<subseteq># mset (constFiles s) \<and> (\<forall>y \<in> set dn. \<not> write_fails env fl y) \<and>
              write_fails env fl x \<and>
              mev (trace s) = concat (map (arch_events (flagOS fl) (arches s)) [0..<length (arches s)]) @
                 concat (map (write_events env fl) dn) @ write_events env fl x)"
    using i(3) by (simp add: late_ok_def Let_def collect_eq del: split_paired_Ex)
  show "mainpc s = M_Check \<Longrightarrow>
           failed s = (\<not> no_job_error (arches s)) \<and>
           (\<exists>dn. mset dn = mset (constFiles s) \<and> (\<forall>x \<in> set dn. \<not> write_fails env fl x) \<and>
              mev (trace s) = concat (map (arch_events (flagOS fl) (arches s)) [0..<length (arches s)]) @
                 concat (map (write_events env fl) dn))"
    using i(3) by (auto simp: late_ok_def Let_def collect_eq)
  show "mainpc s = M_Cleanup i \<Longrightarrow>
           i \<le> length (arches s) \<and>
           failed s = check_failed fl (arches s) (\<not> no_job_error (arches s)) \<and>
           (\<exists>dn. mset dn = mset (constFiles s) \<and> (\<forall>x \<in> set dn. \<not> write_fails env fl x) \<and>
              mev (trace s) = concat (map (arch_events (flagOS fl) (arches s)) [0..<length (arches s)]) @
                 concat (map (write_events env fl) dn) @
                 check_events fl (arches s) (\<not> no_job_error (arches s)) @ cleanup_events (arches s) i)"
    using i(3) by (auto simp: late_ok_def Let_def collect_eq)
  show "mainpc s = M_Exit c \<Longrightarrow>
           c = (if check_failed fl (arches s) (\<not> no_job_error (arches s)) then 1 else 0) \<and>
           (\<exists>dn. mset dn = mset (constFiles s) \<and> (\<forall>x \<in> set dn. \<not> write_fails env fl x) \<and>
              mev (trace s) = concat (map (arch_events (flagOS fl) (arches s)) [0..<length (arches s)]) @
                 concat (map (write_events env fl) dn) @
                 check_events fl (arches s) (\<not> no_job_error (arches s)) @
                 cleanup_events (arches s) (length (arches s)))"
    using i(3) by (auto simp: late_ok_def Let_def collect_eq)
qed

lemma arch_events_not [simp]:
  "CallCheck \<notin> set (arch_events os as p)" "Print_unsupported f n \<notin> set (arch_events os as p)"
  by (auto dest!: arch_events_coll simp: is_coll_def)

text \<open>When the check has been called.\<close>

lemma callcheck_iff:
  assumes p: "pipeline env fl ts = Some s"
  shows "CallCheck \<in> set (trace s) \<longleftrightarrow>
     ((\<exists>i. mainpc s = M_Cleanup i) \<or> (\<exists>c. mainpc s = M_Exit c)) \<and>
     check_runs fl (\<not> no_job_error (arches s))"
proof -
  note i = pipeline_invs [OF p]
  have m: "CallCheck \<in> set (trace s) \<longleftrightarrow> CallCheck \<in> set (mev (trace s))"
    by (simp add: in_mev is_worker_event_def)
  show ?thesis
  proof (cases "collected (mainpc s)")
    case False
    then have "case mainpc s of M_Arch i \<Rightarrow> True | M_WaitArch i \<Rightarrow> True | M_ArchErr i \<Rightarrow> True
              | M_File i k \<Rightarrow> True | M_FileErr i k \<Rightarrow> True | _ \<Rightarrow> False"
      using i(4) by (cases "mainpc s") (simp_all add: collected_def)
    from coll_phase_events [OF i(2) this, of CallCheck] False show ?thesis
      unfolding m by (auto simp: is_coll_def collected_def)
  next
    case True
    then show ?thesis
      unfolding m using late_explicit(2-6) [OF p]
      by (cases "mainpc s") (auto simp: collected_def check_events_def)
  qed
qed

lemma filter_or_left: "\<forall>e \<in> set xs. \<not> Q e \<Longrightarrow> filter (\<lambda>e. P e \<or> Q e) xs = filter P xs"
  by (rule filter_cong) auto

lemma filter_or_right: "\<forall>e \<in> set xs. \<not> P e \<Longrightarrow> filter (\<lambda>e. P e \<or> Q e) xs = filter Q xs"
  by (rule filter_cong) auto

lemma filter_or_none: "\<forall>e \<in> set xs. \<not> P e \<and> \<not> Q e \<Longrightarrow> filter (\<lambda>e. P e \<or> Q e) xs = []"
  by (simp add: filter_empty_conv)

lemma not_worker [simp]:
  "is_wait e \<Longrightarrow> \<not> is_worker_event e" "is_fs e \<Longrightarrow> \<not> is_worker_event e"
  "is_rm e \<Longrightarrow> \<not> is_worker_event e" "is_diag e \<Longrightarrow> \<not> is_worker_event e"
  by (auto simp: is_wait_def is_fs_def is_rm_def is_diag_def is_worker_event_def split: event.splits)

lemma out0_no [simp]:
  "\<forall>e \<in> set (concat (map (arch_events os as) ps)). \<not> is_fs e"
  "\<forall>e \<in> set (concat (map (arch_events os as) ps)). \<not> is_rm e"
  by (auto dest!: arch_events_coll simp: is_coll_def is_fs_def is_rm_def split: event.splits)

lemma writes_no [simp]:
  "\<forall>e \<in> set (concat (map (write_events env fl) dn)). \<not> is_wait e"
  "\<forall>e \<in> set (concat (map (write_events env fl) dn)). \<not> is_rm e"
  "\<forall>e \<in> set (write_events env fl x). \<not> is_wait e"
  "\<forall>e \<in> set (write_events env fl x). \<not> is_rm e"
  by (auto simp: write_events_def is_wait_def is_rm_def split: if_splits)

lemma check_no [simp]:
  "\<forall>e \<in> set (check_events fl as f0). \<not> is_wait e \<and> \<not> is_fs e"
  "\<forall>e \<in> set (check_events fl as f0). \<not> is_wait e \<and> \<not> is_rm e"
  by (auto simp: check_events_def check_reads_def is_wait_def is_fs_def is_rm_def split: if_splits)

lemma cleanup_no [simp]:
  "\<forall>e \<in> set (cleanup_events as i). \<not> is_wait e \<and> \<not> is_fs e"
  "\<forall>e \<in> set (cleanup_events as i). \<not> is_wait e"
  by (auto simp: cleanup_events_def is_wait_def is_fs_def)

lemma drain_order_eq:
  "filter is_wait (concat (map (arch_events os as) [0..<length as])) = drain_order as"
  by (simp add: filter_wait_out0 drain_order_def)

lemma diag_lines_eq:
  "filter is_diag (concat (map (arch_events os as) [0..<length as])) = diag_lines os as"
  by (simp add: filter_concat_map filter_diag_arch_events diag_lines_def)

lemma reachable_distinct_keys:
  assumes "reachable env fl ex as0 s"
  shows "distinct (map fst (constFiles s))"
  using assms
proof (induction rule: reachable.induct)
  case r_init
  then show ?case by (simp add: init_def)
next
  case (r_step s t s')
  from r_step.hyps(2) show ?case
  proof (cases rule: step_cases)
    case (main n)
    from main(3) r_step.IH show ?thesis
      by (cases rule: main_step_cases) (simp_all add: distinct_update)
  next
    case (worker w)
    with frame_worker_step [of env ex w s s'] r_step.IH show ?thesis by simp
  qed
qed

text \<open>The safety half of the failure policy: what a finished collection has done.\<close>

lemma collection_complete:
  assumes p: "pipeline env fl ts = Some s" and c: "collected (mainpc s)"
  shows "(\<forall>p < length (arches s). arch_drained (arches s) p) \<and>
    filter is_wait (trace s) = drain_order (arches s) \<and>
    filter is_diag (trace s) = diag_lines (flagOS fl) (arches s) \<and>
    constFiles s = foldl (add_table env (arches s)) [] (good_files (arches s)) \<and>
    (\<forall>c. mainpc s = M_Exit c \<longrightarrow> (\<not> no_job_error (arches s) \<longrightarrow> c = 1))"
proof -
  have w: "filter is_wait (trace s) = filter is_wait (mev (trace s))"
    and d: "filter is_diag (trace s) = filter is_diag (mev (trace s))"
    by (simp_all add: filter_mev)
  note l = late_explicit [OF p]
  from c show ?thesis
  proof (cases "mainpc s")
    case (M_Write todo)
    with l(1) [OF c] l(2) [OF M_Write] show ?thesis
      unfolding w d by (auto simp: drain_order_eq diag_lines_eq)
  next
    case M_Check
    with l(1) [OF c] l(4) [OF M_Check] show ?thesis
      unfolding w d by (auto simp: drain_order_eq diag_lines_eq)
  next
    case (M_Cleanup i)
    with l(1) [OF c] l(5) [OF M_Cleanup] show ?thesis
      unfolding w d by (auto simp: drain_order_eq diag_lines_eq)
  next
    case (M_Exit c')
    with l(1) [OF c] l(6) [OF M_Exit] show ?thesis
      unfolding w d by (auto simp: drain_order_eq diag_lines_eq check_failed_def check_runs_def)
  next
    case (M_Failf m)
    with l(1) [OF c] l(3) [OF M_Failf] show ?thesis
      unfolding w d by (auto simp: drain_order_eq diag_lines_eq)
  qed (simp_all add: collected_def)
qed

lemma pipeline_static:
  assumes p: "pipeline env fl ts = Some s"
  shows "\<forall>i < length (arches s). build (arches s ! i) = flagBuild fl \<and>
           (flagBuild fl \<longrightarrow> TempDir env i = Inr (buildDir (arches s ! i)))"
proof -
  from p obtain ex as0 where ms: "main_setup env fl = Inr (ex, as0)"
    and f: "fresh as0" and r: "reachable env fl ex as0 s"
    by (rule pipeline_reachable)
  from reachable_inv1 [OF f r] have st: "map static (arches s) = map static as0"
    by (simp add: inv1_def)
  from ms obtain allFiles where
    loop: "createArches_loop env fl (flagOS fl) (Args fl) allFiles []
             (archList env (flagOS fl) (flagArch fl)) = Inr as0"
    by (auto simp: main_setup_def createArches_def split: if_splits option.splits sum.splits prod.splits)
  note P = createArches_loop_props [OF loop, simplified]
  show ?thesis
  proof (intro allI impI)
    fix i assume i: "i < length (arches s)"
    from static_nth [OF st i] have e: "build (arches s ! i) = build (as0 ! i)"
      "buildDir (arches s ! i) = buildDir (as0 ! i)" and l: "length as0 = length (arches s)"
      by (simp_all add: static_def)
    from P i l have "build (as0 ! i) = flagBuild fl"
      "flagBuild fl \<longrightarrow> TempDir env i = Inr (buildDir (as0 ! i))"
      by auto
    with e show "build (arches s ! i) = flagBuild fl \<and>
           (flagBuild fl \<longrightarrow> TempDir env i = Inr (buildDir (arches s ! i)))"
      by simp
  qed
qed

subsection \<open>Evaluated runs\<close>

lemma some_caseD:
  "(case x of None \<Rightarrow> False | Some s \<Rightarrow> P s) \<Longrightarrow> x \<noteq> None \<and> x = Some (the x) \<and> P (the x)"
  by (cases x) simp_all

subsection \<open>Histories\<close>

lemma closed_iff: "closed tr j \<longleftrightarrow> (\<exists>w. Close w j \<in> set tr)"
proof
  assume "closed tr j"
  then obtain e where e: "e \<in> set tr" "case e of Close w j' \<Rightarrow> j' = j | _ \<Rightarrow> False"
    unfolding closed_def list_ex_iff by blast
  have "\<exists>w. e = Close w j"
    using e(2) by (cases e) simp_all
  with e(1) show "\<exists>w. Close w j \<in> set tr"
    by blast
next
  assume "\<exists>w. Close w j \<in> set tr"
  then obtain w where "Close w j \<in> set tr" ..
  then show "closed tr j"
    unfolding closed_def list_ex_iff by (rule bexI [rotated]) simp
qed

lemma sent_iff: "sent tr j \<longleftrightarrow> (\<exists>w. Send w j \<in> set tr)"
proof
  assume "sent tr j"
  then obtain e where e: "e \<in> set tr" "case e of Send w j' \<Rightarrow> j' = j | _ \<Rightarrow> False"
    unfolding sent_def list_ex_iff by blast
  have "\<exists>w. e = Send w j"
    using e(2) by (cases e) simp_all
  with e(1) show "\<exists>w. Send w j \<in> set tr"
    by blast
next
  assume "\<exists>w. Send w j \<in> set tr"
  then obtain w where "Send w j \<in> set tr" ..
  then show "sent tr j"
    unfolding sent_def list_ex_iff by (rule bexI [rotated]) simp
qed

lemma cur_job_snoc:
  "cur_job w (tr @ [e]) = (case e of Recv v j \<Rightarrow> if v = w then Some j else cur_job w tr | _ \<Rightarrow> cur_job w tr)"
  by (cases e) (simp_all add: cur_job_def)

lemma cur_job_append_other:
  "\<forall>e \<in> set es. \<forall>j. e \<noteq> Recv w j \<Longrightarrow> cur_job w (tr @ es) = cur_job w tr"
proof (induction es rule: rev_induct)
  case Nil
  then show ?case by simp
next
  case (snoc e es)
  then have "cur_job w (tr @ es) = cur_job w tr" by simp
  moreover from snoc.prems have "\<forall>j. e \<noteq> Recv w j" by simp
  ultimately show ?case
    using cur_job_snoc [of w "tr @ es" e] by (cases e) auto
qed

lemma cur_job_recv: "cur_job w tr = Some j \<Longrightarrow> Recv w j \<in> set tr"
proof (induction tr rule: rev_induct)
  case Nil
  then show ?case by (simp add: cur_job_def)
next
  case (snoc e tr)
  then show ?case
    by (cases e) (auto simp: cur_job_snoc split: if_splits)
qed

lemma closed_append: "closed (tr @ es) j \<longleftrightarrow> closed tr j \<or> closed es j"
  by (auto simp: closed_iff)

lemma sent_append: "sent (tr @ es) j \<longleftrightarrow> sent tr j \<or> sent es j"
  by (auto simp: sent_iff)

lemma timed_append: "timed pre (es @ fs) \<longleftrightarrow> timed pre es \<and> timed (pre @ es) fs"
  by (induction es arbitrary: pre) auto

lemma well_timed_snoc: "well_timed (tr @ es) \<longleftrightarrow> well_timed tr \<and> timed tr es"
  by (simp add: well_timed_def timed_append)

lemma well_timed_nth:
  assumes "well_timed tr" and "n < length tr"
  shows "ok_event (take n tr) (tr ! n)"
proof -
  from assms(2) have "tr = take n tr @ (tr ! n # drop (Suc n) tr)"
    by (simp add: id_take_nth_drop [symmetric])
  with assms(1) have "timed [] (take n tr @ (tr ! n # drop (Suc n) tr))"
    by (simp add: well_timed_def)
  then show ?thesis
    by (simp add: timed_append)
qed

lemma wlink_mono:
  assumes "wlink tr w pc" and "cur_job w (tr @ es) = cur_job w tr"
  shows "wlink (tr @ es) w pc"
  using assms by (cases pc) (auto simp: wlink_def)

subsection \<open>The file jobs still to be sent\<close>

lemma sum_list_mono_mset:
  fixes f g :: "'a \<Rightarrow> 'b multiset"
  shows "(\<And>x. x \<in> set xs \<Longrightarrow> f x \<subseteq># g x) \<Longrightarrow> sum_list (map f xs) \<subseteq># sum_list (map g xs)"
proof (induction xs)
  case Nil
  then show ?case by simp
next
  case (Cons x xs)
  then have "f x \<subseteq># g x" and "sum_list (map f xs) \<subseteq># sum_list (map g xs)"
    by simp_all
  then show ?case
    by (simp add: subset_mset.add_mono)
qed

lemma owed_le: "owed as j \<subseteq># expand as j"
  by (cases j) (simp_all add: owed_def expand_def)

lemma owes_le: "owes as pc \<subseteq># holds as pc"
  by (cases pc) (simp_all add: owes_def holds_def expand_def)

lemma pending_le: "pending s \<subseteq># tokens s"
  unfolding pending_def tokens_def
  by (rule subset_mset.add_mono; rule sum_list_mono_mset; rule owed_le owes_le)

lemma owed_cong: "(\<And>q. nfiles bs q = nfiles as q) \<Longrightarrow> owed bs = owed as"
proof
  fix j
  assume "\<And>q. nfiles bs q = nfiles as q"
  then have "unsent bs = unsent as" by (rule unsent_cong)
  then show "owed bs j = owed as j"
    by (cases j) (simp_all add: owed_def)
qed

lemma owes_cong: "(\<And>q. nfiles bs q = nfiles as q) \<Longrightarrow> owes bs = owes as"
proof
  fix pc
  assume "\<And>q. nfiles bs q = nfiles as q"
  then have "unsent bs = unsent as" by (rule unsent_cong)
  then show "owes bs pc = owes as pc"
    by (cases pc) (simp_all add: owes_def)
qed

lemma pending_step_eq:
  assumes "w < length (workers s)" and "\<And>q. nfiles (arches s') q = nfiles (arches s) q"
    and "workers s' = (workers s)[w := pc']"
  shows "pending s' + owes (arches s) (workers s ! w) + sum_list (map (owed (arches s)) (jobC s)) =
         pending s + owes (arches s) pc' + sum_list (map (owed (arches s)) (jobC s'))"
  using sum_list_update_mset [OF assms(1), of "owes (arches s)" pc']
  unfolding pending_def owed_cong [OF assms(2)] owes_cong [OF assms(2)] assms(3)
  by (simp add: ac_simps)

lemma pending_worker_step:
  assumes "worker_step env ex w s = Some s'" and w: "w < length (workers s)"
    and ok: "\<forall>pc \<in> set (workers s). wpc_ok (arches s) pc"
  shows "pending s' \<subseteq># pending s \<and>
    (\<forall>p i k. workers s ! w = W_Send p i k \<longrightarrow> pending s = add_mset (FileJob p k) (pending s'))"
  using assms(1)
proof (cases rule: worker_step_cases)
  case (recv j js)
  have "owes (arches s) (case j of ArchJob p \<Rightarrow> W_Arch p | FileJob p k \<Rightarrow> W_File p k) = owed (arches s) j"
    by (cases j) (simp_all add: owes_def owed_def)
  with pending_step_eq [OF w, of s' "case j of ArchJob p \<Rightarrow> W_Arch p | FileJob p k \<Rightarrow> W_File p k"]
  have "pending s' = pending s"
    by (simp add: recv owes_def)
  then show ?thesis
    by (simp add: recv)
next
  case (arch p)
  with pending_step_eq [OF w, of s' "W_ArchClose p (fst (processArch env ex (arches s ! p)))"]
  have "pending s' = pending s"
    by (simp add: owes_def nfiles_updArch)
  then show ?thesis
    by (simp add: arch)
next
  case (archclose_panic p infos)
  then show ?thesis by (simp add: pending_def)
next
  case (archclose p infos)
  with pending_step_eq [OF w, of s' "W_ArchCheck p infos"]
  have "pending s' = pending s"
    by (simp add: owes_def nfiles_updArch)
  then show ?thesis
    by (simp add: archclose)
next
  case (archcheck p infos)
  show ?thesis
  proof (cases "Arch.err (arches s ! p) = None")
    case True
    with archcheck pending_step_eq [OF w, of s' "W_Files p infos 0"]
    have "pending s' = pending s"
      by (simp add: owes_def)
    then show ?thesis by (simp add: archcheck)
  next
    case False
    with archcheck pending_step_eq [OF w, of s' "W_Recv"]
    have "pending s = pending s' + unsent (arches s) p 0"
      by (simp add: owes_def)
    then show ?thesis by (simp add: archcheck)
  qed
next
  case (files_next p infos k)
  with pending_step_eq [OF w, of s' "W_Send p infos k"]
  have "pending s' = pending s"
    by (simp add: owes_def)
  then show ?thesis
    by (simp add: files_next)
next
  case (files_end p infos k)
  with pending_step_eq [OF w, of s' "W_Recv"]
  have "pending s' = pending s"
    by (simp add: owes_def unsent_end nfiles_def)
  then show ?thesis by (simp add: files_end)
next
  case (send p infos k)
  from send(1) w ok have "wpc_ok (arches s) (W_Send p infos k)"
    by (metis nth_mem)
  then have "k < nfiles (arches s) p" by (simp add: wpc_ok_def)
  with send pending_step_eq [OF w, of s' "W_Files p infos (Suc k)"]
  have "pending s = add_mset (FileJob p k) (pending s')"
    by (simp add: owes_def unsent_Suc owed_def)
  then show ?thesis by (simp add: send)
next
  case (fileproc p k)
  with pending_step_eq [OF w, of s' "W_FileClose p k"]
  have "pending s' = pending s"
    by (simp add: owes_def)
  then show ?thesis
    by (simp add: fileproc)
next
  case (fileclose_panic p k)
  then show ?thesis by (simp add: pending_def)
next
  case (fileclose p k)
  with pending_step_eq [OF w, of s' "W_Recv"]
  have "pending s' = pending s"
    by (simp add: owes_def)
  then show ?thesis
    by (simp add: fileclose)
qed

subsection \<open>The history and the state\<close>

lemma closed_simps [simp]:
  "closed [] j = False"
  "closed (tr @ es) j \<longleftrightarrow> closed tr j \<or> closed es j"
  "closed (e # es) j \<longleftrightarrow> (\<exists>w. e = Close w j) \<or> closed es j"
  by (auto simp: closed_iff)

lemma sent_simps [simp]:
  "sent [] j = False"
  "sent (tr @ es) j \<longleftrightarrow> sent tr j \<or> sent es j"
  "sent (e # es) j \<longleftrightarrow> (\<exists>w. e = Send w j) \<or> sent es j"
  by (auto simp: sent_iff)

lemma valid_job_worker_step:
  assumes "worker_step env ex w s = Some s'"
  shows "valid_job (arches s') = valid_job (arches s)"
  using frame_worker_step [OF assms] by (intro valid_job_cong) auto

lemma held_valid:
  assumes "inv1 as0 s" and "w < length (workers s)" and "j \<in># holds (arches s) (workers s ! w)"
  shows "valid_job (arches s) j" and "\<not> job_done (arches s) j"
  using assms held_token [OF assms(2,3)] by (auto simp: inv1_def)

lemma closed_link_worker_step:
  assumes st: "worker_step env ex w s = Some s'" and w: "w < length (workers s)"
    and inv: "inv1 as0 s"
    and l: "\<forall>j. valid_job (arches s) j \<longrightarrow> closed (trace s) j = job_done (arches s) j"
  shows "\<forall>j. valid_job (arches s') j \<longrightarrow> closed (trace s') j = job_done (arches s') j"
proof (intro allI impI)
  fix j
  assume "valid_job (arches s') j"
  then have v: "valid_job (arches s) j"
    by (simp add: valid_job_worker_step [OF st])
  with l have c: "closed (trace s) j = job_done (arches s) j" by simp
  from st show "closed (trace s') j = job_done (arches s') j"
  proof (cases rule: worker_step_cases)
    case (recv j' js)
    with c show ?thesis by simp
  next
    case (arch p)
    with c show ?thesis by (simp add: job_done_updArch)
  next
    case (archclose_panic p infos)
    with c show ?thesis by simp
  next
    case (archclose p infos)
    from held_valid(1) [OF inv w, of "ArchJob p"] archclose(1)
    have "p < length (arches s)" by (simp add: holds_def expand_def valid_job_def)
    with archclose c show ?thesis by (auto simp: job_done_updArch)
  next
    case (archcheck p infos)
    with c show ?thesis by simp
  next
    case (files_next p infos k)
    with c show ?thesis by (simp add: job_done_updFile)
  next
    case (files_end p infos k)
    with c show ?thesis by simp
  next
    case (send p infos k)
    with c show ?thesis by simp
  next
    case (fileproc p k)
    with c show ?thesis by (simp add: job_done_updFile)
  next
    case (fileclose_panic p k)
    with c show ?thesis by simp
  next
    case (fileclose p k)
    from held_valid(1) [OF inv w, of "FileJob p k"] fileclose(1)
    have "p < length (arches s) \<and> k < nfiles (arches s) p" by (simp add: holds_def valid_job_def)
    with fileclose c show ?thesis by (auto simp: job_done_updFile)
  qed
qed

lemma cur_job_simps [simp]:
  "cur_job w (tr @ [Recv v j]) = (if v = w then Some j else cur_job w tr)"
  "cur_job w (tr @ [Send v j]) = cur_job w tr"
  "cur_job w (tr @ [Write v j f]) = cur_job w tr"
  "cur_job w (tr @ [Close v j]) = cur_job w tr"
  "cur_job w (tr @ [Write v j f, Write v' j' f', Write v'' j'' f'']) = cur_job w tr"
  by (simp_all add: cur_job_def)

lemma wlink_worker_step:
  assumes st: "worker_step env ex w s = Some s'" and w: "w < length (workers s)"
    and l: "\<forall>v < length (workers s). wlink (trace s) v (workers s ! v)"
  shows "\<forall>v < length (workers s'). wlink (trace s') v (workers s' ! v)"
proof (intro allI impI)
  fix v
  assume "v < length (workers s')"
  with frame_worker_step [OF st] have v: "v < length (workers s)" by simp
  with l have lv: "wlink (trace s) v (workers s ! v)" by simp
  from l w have lw: "wlink (trace s) w (workers s ! w)" by simp
  have other: "wlink (trace s @ es) v (workers s ! v)"
    if "v \<noteq> w" and "\<forall>e \<in> set es. \<forall>j. e \<noteq> Recv v j" for es
    using lv cur_job_append_other [OF that(2)] by (rule wlink_mono)
  from st show "wlink (trace s') v (workers s' ! v)"
  proof (cases rule: worker_step_cases)
    case (recv j js)
    show ?thesis
    proof (cases "v = w")
      case True
      with recv w show ?thesis by (cases j) (simp_all add: wlink_def)
    next
      case False
      with recv other [of "[Recv w j]"] show ?thesis by simp
    qed
  next
    case (arch p)
    show ?thesis
    proof (cases "v = w")
      case True
      with arch w lw show ?thesis by (simp add: wlink_def)
    next
      case False
      with arch other [of "[Write w (ArchJob p) ErrF]"] show ?thesis by simp
    qed
  next
    case (archclose_panic p infos)
    with lv show ?thesis by simp
  next
    case (archclose p infos)
    show ?thesis
    proof (cases "v = w")
      case True
      with archclose w lw show ?thesis by (simp add: wlink_def)
    next
      case False
      with archclose other [of "[Close w (ArchJob p)]"] show ?thesis by simp
    qed
  next
    case (archcheck p infos)
    show ?thesis
    proof (cases "v = w")
      case True
      with archcheck w lw show ?thesis by (simp add: wlink_def)
    next
      case False
      with archcheck lv show ?thesis by simp
    qed
  next
    case (files_next p infos k)
    show ?thesis
    proof (cases "v = w")
      case True
      with files_next w lw show ?thesis by (simp add: wlink_def)
    next
      case False
      with files_next other [of "[Write w (FileJob p k) InfoF]"] show ?thesis by simp
    qed
  next
    case (files_end p infos k)
    show ?thesis
    proof (cases "v = w")
      case True
      with files_end w show ?thesis by (simp add: wlink_def)
    next
      case False
      with files_end lv show ?thesis by simp
    qed
  next
    case (send p infos k)
    show ?thesis
    proof (cases "v = w")
      case True
      with send w lw show ?thesis by (simp add: wlink_def)
    next
      case False
      with send other [of "[Send w (FileJob p k)]"] show ?thesis by simp
    qed
  next
    case (fileproc p k)
    show ?thesis
    proof (cases "v = w")
      case True
      with fileproc w lw show ?thesis by (simp add: wlink_def)
    next
      case False
      with fileproc other [of "[Write w (FileJob p k) ConstsF, Write w (FileJob p k) UndeclaredF,
               Write w (FileJob p k) ErrF]"] show ?thesis by simp
    qed
  next
    case (fileclose_panic p k)
    with lv show ?thesis by simp
  next
    case (fileclose p k)
    show ?thesis
    proof (cases "v = w")
      case True
      with fileclose w show ?thesis by (simp add: wlink_def)
    next
      case False
      with fileclose other [of "[Close w (FileJob p k)]"] show ?thesis by simp
    qed
  qed
qed

text \<open>What a worker's step adds to the history.\<close>

lemma worker_step_trace:
  assumes "worker_step env ex w s = Some s'"
  obtains es where "trace s' = trace s @ es"
    and "\<forall>e \<in> set es. case e of Recv v j \<Rightarrow> v = w \<and> jobC s = j # jobC s'
           | Send v j \<Rightarrow> v = w \<and> jobC s' = jobC s @ [j] \<and> (\<exists>p i k. workers s ! w = W_Send p i k \<and> j = FileJob p k)
           | Write v j f \<Rightarrow> v = w \<and> (f = InfoF \<longrightarrow> (\<exists>p i k. workers s ! w = W_Files p i k \<and> j = FileJob p k \<and> k < nfiles (arches s) p))
           | Close v j \<Rightarrow> v = w
           | _ \<Rightarrow> False"
    and "(\<forall>e \<in> set es. \<forall>v j. e \<noteq> Send v j) \<longrightarrow> set (jobC s') \<subseteq> set (jobC s)"
  using assms
proof (cases rule: worker_step_cases)
  case (recv j js)
  with that [of "[Recv w j]"] show ?thesis by auto
next
  case (arch p)
  with that [of "[Write w (ArchJob p) ErrF]"] show ?thesis by simp
next
  case (archclose_panic p infos)
  with that [of "[]"] show ?thesis by simp
next
  case (archclose p infos)
  with that [of "[Close w (ArchJob p)]"] show ?thesis by simp
next
  case (archcheck p infos)
  with that [of "[]"] show ?thesis by simp
next
  case (files_next p infos k)
  with that [of "[Write w (FileJob p k) InfoF]"] show ?thesis by (simp add: nfiles_def)
next
  case (files_end p infos k)
  with that [of "[]"] show ?thesis by simp
next
  case (send p infos k)
  with that [of "[Send w (FileJob p k)]"] show ?thesis by simp
next
  case (fileproc p k)
  with that [of "[Write w (FileJob p k) ConstsF, Write w (FileJob p k) UndeclaredF,
               Write w (FileJob p k) ErrF]"] show ?thesis by simp
next
  case (fileclose_panic p k)
  with that [of "[]"] show ?thesis by simp
next
  case (fileclose p k)
  with that [of "[Close w (FileJob p k)]"] show ?thesis by simp
qed

lemma owes_pending:
  "w < length (workers s) \<Longrightarrow> j \<in># owes (arches s) (workers s ! w) \<Longrightarrow> j \<in># pending s"
  by (auto simp: pending_def in_sum_list_mset)

lemma queue_link_worker_step:
  assumes st: "worker_step env ex w s = Some s'"
    and l: "\<forall>p k. FileJob p k \<in> set (jobC s) \<longrightarrow> sent (trace s) (FileJob p k)"
  shows "\<forall>p k. FileJob p k \<in> set (jobC s') \<longrightarrow> sent (trace s') (FileJob p k)"
  using st
proof (cases rule: worker_step_cases)
  case (recv j js)
  with l show ?thesis by simp
next
  case (send p infos k)
  with l show ?thesis by auto
qed (use l in simp_all)

lemma sent_link_worker_step:
  assumes st: "worker_step env ex w s = Some s'" and w: "w < length (workers s)"
    and inv: "inv1 as0 s"
    and l: "\<forall>j. sent (trace s) j \<longrightarrow> j \<notin># pending s"
  shows "\<forall>j. sent (trace s') j \<longrightarrow> j \<notin># pending s'"
proof (intro allI impI)
  fix j
  assume s': "sent (trace s') j"
  from inv have ok: "\<forall>pc \<in> set (workers s). wpc_ok (arches s) pc"
    and cnt: "count (tokens s) j \<le> 1"
    by (simp_all add: inv1_def)
  note p = pending_worker_step [OF st w ok]
  from st obtain es where es: "trace s' = trace s @ es"
    and ev: "\<forall>e \<in> set es. case e of Recv v j \<Rightarrow> v = w \<and> jobC s = j # jobC s'
           | Send v j \<Rightarrow> v = w \<and> jobC s' = jobC s @ [j] \<and> (\<exists>p i k. workers s ! w = W_Send p i k \<and> j = FileJob p k)
           | Write v j f \<Rightarrow> v = w \<and> (f = InfoF \<longrightarrow> (\<exists>p i k. workers s ! w = W_Files p i k \<and> j = FileJob p k \<and> k < nfiles (arches s) p))
           | Close v j \<Rightarrow> v = w
           | _ \<Rightarrow> False"
    by (rule worker_step_trace)
  from s' es consider "sent (trace s) j" | "sent es j" by auto
  then show "j \<notin># pending s'"
  proof cases
    case 1
    with l have "j \<notin># pending s" by simp
    with p show ?thesis
      by (meson mset_subset_eqD)
  next
    case 2
    then obtain v where "Send v j \<in> set es" by (auto simp: sent_iff)
    with ev obtain p' i k where "workers s ! w = W_Send p' i k" "j = FileJob p' k"
      by fastforce
    with p have e: "pending s = add_mset j (pending s')" by simp
    have "count (pending s) j \<le> count (tokens s) j"
      using pending_le [of s] by (simp add: mset_subset_eq_count)
    with cnt e have "count (pending s') j = 0" by simp
    then show ?thesis by (simp add: count_eq_zero_iff)
  qed
qed

lemma arch_link_worker_step:
  assumes st: "worker_step env ex w s = Some s'" and w: "w < length (workers s)"
    and inv: "inv1 as0 s"
    and l: "\<forall>v p k. Send v (FileJob p k) \<in> set (trace s) \<or> Write v (FileJob p k) InfoF \<in> set (trace s) \<longrightarrow>
        p < length (arches s) \<and> Arch.done_ch (arches s ! p) \<and> Arch.err (arches s ! p) = None"
  shows "\<forall>v p k. Send v (FileJob p k) \<in> set (trace s') \<or> Write v (FileJob p k) InfoF \<in> set (trace s') \<longrightarrow>
        p < length (arches s') \<and> Arch.done_ch (arches s' ! p) \<and> Arch.err (arches s' ! p) = None"
proof (intro allI impI)
  fix v p k
  assume a: "Send v (FileJob p k) \<in> set (trace s') \<or> Write v (FileJob p k) InfoF \<in> set (trace s')"
  from inv have ok: "\<forall>pc \<in> set (workers s). wpc_ok (arches s) pc"
    and tok: "\<forall>j. j \<in># tokens s \<longrightarrow> valid_job (arches s) j \<and> \<not> job_done (arches s) j"
    by (simp_all add: inv1_def)
  from w ok have okw: "wpc_ok (arches s) (workers s ! w)" by simp
  from st obtain es where es: "trace s' = trace s @ es"
    and ev: "\<forall>e \<in> set es. case e of Recv v j \<Rightarrow> v = w \<and> jobC s = j # jobC s'
           | Send v j \<Rightarrow> v = w \<and> jobC s' = jobC s @ [j] \<and> (\<exists>p i k. workers s ! w = W_Send p i k \<and> j = FileJob p k)
           | Write v j f \<Rightarrow> v = w \<and> (f = InfoF \<longrightarrow> (\<exists>p i k. workers s ! w = W_Files p i k \<and> j = FileJob p k \<and> k < nfiles (arches s) p))
           | Close v j \<Rightarrow> v = w
           | _ \<Rightarrow> False"
    by (rule worker_step_trace)
  have old: "p < length (arches s) \<and> Arch.done_ch (arches s ! p) \<and> Arch.err (arches s ! p) = None"
  proof (cases "Send v (FileJob p k) \<in> set (trace s) \<or> Write v (FileJob p k) InfoF \<in> set (trace s)")
    case True
    with l show ?thesis by blast
  next
    case False
    with a es consider "Send v (FileJob p k) \<in> set es" | "Write v (FileJob p k) InfoF \<in> set es"
      by auto
    then show ?thesis
    proof cases
      case 1
      with ev obtain i where "workers s ! w = W_Send p i k" by fastforce
      with okw show ?thesis by (simp add: wpc_ok_def)
    next
      case 2
      with ev obtain i where "workers s ! w = W_Files p i k" by fastforce
      with okw show ?thesis by (simp add: wpc_ok_def)
    qed
  qed
  with arch_stable [OF st w tok, of p] frame_worker_step [OF st]
  show "p < length (arches s') \<and> Arch.done_ch (arches s' ! p) \<and> Arch.err (arches s' ! p) = None"
    by simp
qed

lemma cur_job_Write [simp]: "cur_job w (tr @ Write v j f # es) = cur_job w (tr @ es)"
  by (simp add: cur_job_def)

lemma timed_worker_step:
  assumes st: "worker_step env ex w s = Some s'" and w: "w < length (workers s)"
    and inv: "inv1 as0 s" and l: "tlink s" and t: "well_timed (trace s)"
  shows "well_timed (trace s')"
proof -
  from inv have ok: "\<forall>pc \<in> set (workers s). wpc_ok (arches s) pc"
    by (simp add: inv1_def)
  from w ok have okw: "wpc_ok (arches s) (workers s ! w)" by simp
  from l w have lw: "wlink (trace s) w (workers s ! w)" by (simp add: tlink_def)
  have open_job: "\<not> closed (trace s) j" if "j \<in># holds (arches s) (workers s ! w)" for j
    using held_valid [OF inv w that] l by (simp add: tlink_def)
  have unsent_job: "\<not> sent (trace s) j" if "j \<in># owes (arches s) (workers s ! w)" for j
    using owes_pending [OF w that] l by (auto simp: tlink_def)
  from st show ?thesis
  proof (cases rule: worker_step_cases)
    case (recv j js)
    from l recv(2) have "ok_event (trace s) (Recv w j)"
      by (cases j) (simp_all add: ok_event_def tlink_def)
    with recv t show ?thesis by (simp add: well_timed_snoc)
  next
    case (arch p)
    with lw open_job [of "ArchJob p"] have "ok_event (trace s) (Write w (ArchJob p) ErrF)"
      by (simp add: ok_event_def wlink_def holds_def expand_def)
    with arch t show ?thesis by (simp add: well_timed_snoc)
  next
    case (archclose_panic p infos)
    with t show ?thesis by simp
  next
    case (archclose p infos)
    with lw open_job [of "ArchJob p"] have "ok_event (trace s) (Close w (ArchJob p))"
      by (simp add: ok_event_def wlink_def holds_def expand_def)
    with archclose t show ?thesis by (simp add: well_timed_snoc)
  next
    case (archcheck p infos)
    with t show ?thesis by simp
  next
    case (files_next p infos k)
    then have "FileJob p k \<in># owes (arches s) (workers s ! w)"
      by (simp add: owes_def in_unsent nfiles_def)
    with files_next lw unsent_job [of "FileJob p k"]
    have "ok_event (trace s) (Write w (FileJob p k) InfoF)"
      by (simp add: ok_event_def wlink_def)
    with files_next t show ?thesis by (simp add: well_timed_snoc)
  next
    case (files_end p infos k)
    with t show ?thesis by simp
  next
    case (send p infos k)
    with okw have "FileJob p k \<in># owes (arches s) (workers s ! w)"
      by (simp add: owes_def in_unsent wpc_ok_def)
    with send lw unsent_job [of "FileJob p k"]
    have "ok_event (trace s) (Send w (FileJob p k))"
      by (simp add: ok_event_def wlink_def)
    with send t show ?thesis by (simp add: well_timed_snoc)
  next
    case (fileproc p k)
    with lw open_job [of "FileJob p k"]
    have "timed (trace s) [Write w (FileJob p k) ConstsF, Write w (FileJob p k) UndeclaredF,
               Write w (FileJob p k) ErrF]"
      by (simp add: ok_event_def wlink_def holds_def)
    with fileproc t show ?thesis by (simp add: well_timed_snoc)
  next
    case (fileclose_panic p k)
    with t show ?thesis by simp
  next
    case (fileclose p k)
    with lw open_job [of "FileJob p k"] have "ok_event (trace s) (Close w (FileJob p k))"
      by (simp add: ok_event_def wlink_def holds_def)
    with fileclose t show ?thesis by (simp add: well_timed_snoc)
  qed
qed

lemma tlink_worker_step:
  assumes st: "worker_step env ex w s = Some s'" and w: "w < length (workers s)"
    and inv: "inv1 as0 s" and l: "tlink s"
  shows "tlink s'"
  unfolding tlink_def
proof (intro conjI)
  from l show "\<forall>j. valid_job (arches s') j \<longrightarrow> closed (trace s') j = job_done (arches s') j"
    unfolding tlink_def by (intro closed_link_worker_step [OF st w inv]) blast
  from l show "\<forall>v < length (workers s'). wlink (trace s') v (workers s' ! v)"
    unfolding tlink_def by (intro wlink_worker_step [OF st w]) blast
  from l show "\<forall>p k. FileJob p k \<in> set (jobC s') \<longrightarrow> sent (trace s') (FileJob p k)"
    unfolding tlink_def by (intro queue_link_worker_step [OF st]) blast
  from l show "\<forall>j. sent (trace s') j \<longrightarrow> j \<notin># pending s'"
    unfolding tlink_def by (intro sent_link_worker_step [OF st w inv]) blast
  from l show "\<forall>v p k. Send v (FileJob p k) \<in> set (trace s') \<or>
        Write v (FileJob p k) InfoF \<in> set (trace s') \<longrightarrow>
        p < length (arches s') \<and> Arch.done_ch (arches s' ! p) \<and> Arch.err (arches s' ! p) = None"
    unfolding tlink_def by (intro arch_link_worker_step [OF st w inv]) blast
qed

subsection \<open>The steps of main and the history\<close>

lemma main_step_trace:
  assumes "main_step env fl n s = Some s'"
  obtains es where "trace s' = trace s @ es" and "\<forall>e \<in> set es. \<not> is_worker_event e"
  using assms
proof (cases rule: main_step_cases)
  case (check_run)
  have "\<forall>e \<in> set ([CallCheck] @ check_reads (arches s) @
      map (\<lambda>(f, n). Print_unsupported f n) (snd (checkUnsupportedCalls (arches s)))).
      \<not> is_worker_event e"
    by (auto simp: check_reads_def is_worker_event_def)
  with check_run(4) show ?thesis
    by (intro that [of "[CallCheck] @ check_reads (arches s) @
      map (\<lambda>(f, n). Print_unsupported f n) (snd (checkUnsupportedCalls (arches s)))"]) simp_all
qed (use that [of "[]"] that [of "[_]"] that [of "[_, _]"] that [of "[_, _, _]"] in
      \<open>auto simp: is_worker_event_def\<close>)

lemma nonworker_facts:
  assumes "\<forall>e \<in> set es. \<not> is_worker_event e"
  shows "closed es j = False" and "sent es j = False" and "cur_job w (tr @ es) = cur_job w tr"
    and "Send v j \<notin> set es" and "Write v j f \<notin> set es" and "Close v j \<notin> set es"
    and "Recv v j \<notin> set es"
proof -
  from assms show "Send v j \<notin> set es" "Write v j f \<notin> set es" "Close v j \<notin> set es"
    "Recv v j \<notin> set es"
    by (auto simp: is_worker_event_def)
  from assms show "closed es j = False" "sent es j = False"
    by (auto simp: closed_iff sent_iff is_worker_event_def)
  from assms have "\<forall>e \<in> set es. \<forall>j. e \<noteq> Recv w j"
    by (auto simp: is_worker_event_def)
  then show "cur_job w (tr @ es) = cur_job w tr"
    by (rule cur_job_append_other)
qed

lemma tlink_main_step:
  assumes st: "main_step env fl n s = Some s'" and l: "tlink s"
  shows "tlink s'"
proof -
  from st obtain es where es: "trace s' = trace s @ es" and nw: "\<forall>e \<in> set es. \<not> is_worker_event e"
    by (rule main_step_trace)
  note f = nonworker_facts [OF nw]
  from static_main_step [OF st]
  have eq: "arches s' = arches s" "jobC s' = jobC s" "workers s' = workers s" by simp_all
  then have p: "pending s' = pending s" by (simp add: pending_def)
  have wl: "wlink (trace s @ es) v pc" if "wlink (trace s) v pc" for v pc
    using that f(3) by (rule wlink_mono)
  from l show ?thesis
    unfolding tlink_def es eq p
    by (auto simp: f wl)
qed

lemma ok_event_mono:
  "\<not> is_worker_event e \<Longrightarrow> ok_event pre e \<Longrightarrow> ok_event (pre @ es) e"
  by (cases e) (auto simp: ok_event_def is_worker_event_def)

lemma timed_nonworker:
  "\<forall>e \<in> set es. \<not> is_worker_event e \<and> ok_event pre e \<Longrightarrow> timed pre es"
proof (induction es arbitrary: pre)
  case Nil
  then show ?case by simp
next
  case (Cons e es)
  then have "\<forall>x \<in> set es. \<not> is_worker_event x \<and> ok_event (pre @ [e]) x"
    by (auto intro: ok_event_mono)
  with Cons show ?case by simp
qed

lemma coll_ok_waited:
  assumes "coll_ok env fl s"
  shows "mainpc s = M_ArchErr i \<Longrightarrow> Wait (ArchJob i) \<in> set (trace s)"
    and "mainpc s = M_FileErr i k \<Longrightarrow> Wait (FileJob i k) \<in> set (trace s)"
proof -
  assume "mainpc s = M_ArchErr i"
  with assms have "Wait (ArchJob i) \<in> set (mev (trace s))"
    by (auto simp: coll_ok_def Let_def add_out_def split: prod.splits)
  then show "Wait (ArchJob i) \<in> set (trace s)" by (simp add: in_mev)
next
  assume "mainpc s = M_FileErr i k"
  with assms have "Wait (FileJob i k) \<in> set (mev (trace s))"
    by (auto simp: coll_ok_def Let_def add_out_def split: prod.splits)
  then show "Wait (FileJob i k) \<in> set (trace s)" by (simp add: in_mev)
qed

lemma late_ok_waited:
  assumes l: "late_ok env fl s" and pc: "mainpc s = M_Check" and f: "\<not> failed s"
    and p: "p < length (arches s)" and k: "k < nfiles (arches s) p"
  shows "Wait (FileJob p k) \<in> set (trace s)"
proof -
  from l pc f have n: "no_job_error (arches s)"
    and "\<exists>dn. mev (trace s) =
      concat (map (arch_events (flagOS fl) (arches s)) [0..<length (arches s)]) @
      concat (map (write_events env fl) dn)"
    by (auto simp: late_ok_def Let_def collect_eq)
  then obtain dn where m: "mev (trace s) =
      concat (map (arch_events (flagOS fl) (arches s)) [0..<length (arches s)]) @
      concat (map (write_events env fl) dn)"
    by blast
  from n p have e: "Arch.err (arches s ! p) = None" by (simp add: no_job_error_def)
  from k have "Wait (FileJob p k) \<in> set (file_events (arches s) p k)"
    by (simp add: file_events_def split: option.splits)
  with e k have "Wait (FileJob p k) \<in> set (arch_events (flagOS fl) (arches s) p)"
    by (auto simp: arch_events_def)
  with p have "Wait (FileJob p k) \<in> set (mev (trace s))"
    unfolding m by auto
  then show ?thesis by (simp add: in_mev)
qed

lemma timed_main_step:
  assumes st: "main_step env fl n s = Some s'" and m: "main_ok s" and c: "coll_ok env fl s"
    and la: "late_ok env fl s" and l: "tlink s" and t: "well_timed (trace s)"
  shows "well_timed (trace s')"
proof -
  from l have cl: "closed (trace s) j" if "valid_job (arches s) j" "job_done (arches s) j" for j
    using that by (simp add: tlink_def)
  have step: "well_timed (trace s @ es)"
    if "\<forall>e \<in> set es. \<not> is_worker_event e \<and> ok_event (trace s) e" for es
    using t timed_nonworker [OF that] by (simp add: well_timed_snoc)
  from st show ?thesis
  proof (cases rule: main_step_cases)
    case (arch_next i)
    with step [of "[Print_generating (flagOS fl) (Arch (target (arches s ! i)))]"]
    show ?thesis by (simp add: ok_event_def is_worker_event_def)
  next
    case (arch_end i)
    with t show ?thesis by simp
  next
    case (wait_arch i)
    with m have "i < length (arches s)" by (simp add: main_ok_def)
    with wait_arch cl [of "ArchJob i"] have "closed (trace s) (ArchJob i)"
      by (simp add: valid_job_def)
    with wait_arch step [of "[Wait (ArchJob i)]"]
    show ?thesis by (simp add: ok_event_def is_worker_event_def)
  next
    case (arch_err i e)
    with coll_ok_waited(1) [OF c] step [of "[Read (ArchJob i) ErrF, Print_arch_err e]"]
    show ?thesis by (simp add: ok_event_def is_worker_event_def)
  next
    case (arch_ok i)
    with coll_ok_waited(1) [OF c] step [of "[Read (ArchJob i) ErrF]"]
    show ?thesis by (simp add: ok_event_def is_worker_event_def)
  next
    case (file_wait i k)
    with m have "i < length (arches s)" by (simp add: main_ok_def)
    with file_wait cl [of "FileJob i k"] have "closed (trace s) (FileJob i k)"
      by (simp add: valid_job_def nfiles_def)
    with file_wait step [of "[Wait (FileJob i k)]"]
    show ?thesis by (simp add: ok_event_def is_worker_event_def)
  next
    case (file_end i k)
    with t show ?thesis by simp
  next
    case (file_err i k e)
    with coll_ok_waited(2) [OF c]
      step [of "[Read (FileJob i k) ErrF, Print_file_err (name (the_file (arches s) i k)) e]"]
    show ?thesis by (simp add: ok_event_def is_worker_event_def)
  next
    case (file_ok i k)
    with coll_ok_waited(2) [OF c]
      step [of "[Read (FileJob i k) ErrF, Read (FileJob i k) ConstsF, Read (FileJob i k) UndeclaredF]"]
    show ?thesis by (simp add: ok_event_def is_worker_event_def)
  next
    case (write_end)
    with t show ?thesis by simp
  next
    case (write_remove todo fname cf)
    with step [of "[Serialized fname, Removed (Join env [''sys'', flagOS fl, fname @ ''.const''])]"]
    show ?thesis by (simp add: ok_event_def is_worker_event_def)
  next
    case (write_fail todo fname cf e)
    with step [of "[Serialized fname, Wrote (Join env [''sys'', flagOS fl, fname @ ''.const''])
        (Serialize env cf) (Some e)]"]
    show ?thesis by (simp add: ok_event_def is_worker_event_def)
  next
    case (write_ok todo fname cf)
    with step [of "[Serialized fname, Wrote (Join env [''sys'', flagOS fl, fname @ ''.const''])
        (Serialize env cf) None]"]
    show ?thesis by (simp add: ok_event_def is_worker_event_def)
  next
    case (check_run)
    have "\<not> is_worker_event e \<and> ok_event (trace s) e"
      if "e \<in> set ([CallCheck] @ check_reads (arches s) @
        map (\<lambda>(f, n). Print_unsupported f n) (snd (checkUnsupportedCalls (arches s))))" for e
    proof -
      from that consider "e = CallCheck" | "\<exists>f n. e = Print_unsupported f n"
        | p k f where "p < length (arches s)" "k < nfiles (arches s) p" "e = Read (FileJob p k) f"
        by (auto simp: check_reads_def nfiles_def)
      then show ?thesis
      proof cases
        case 3
        with late_ok_waited [OF la check_run(1) _ 3(1,2)] check_run show ?thesis
          by (simp add: ok_event_def is_worker_event_def)
      qed (auto simp: ok_event_def is_worker_event_def)
    qed
    with check_run step [of "[CallCheck] @ check_reads (arches s) @
        map (\<lambda>(f, n). Print_unsupported f n) (snd (checkUnsupportedCalls (arches s)))"]
    show ?thesis by simp
  next
    case (check_skip)
    with t show ?thesis by simp
  next
    case (cleanup_rm i)
    with step [of "[RemovedAll (buildDir (arches s ! i))]"]
    show ?thesis by (simp add: ok_event_def is_worker_event_def)
  next
    case (cleanup_skip i)
    with t show ?thesis by simp
  next
    case (cleanup_end i)
    with t show ?thesis by simp
  qed
qed

lemma tlink_init:
  assumes "fresh as0"
  shows "tlink (init env as0)" and "well_timed (trace (init env as0))"
proof -
  have "\<not> job_done as0 j" if "valid_job as0 j" for j
    using that assms by (cases j) (auto simp: fresh_def valid_job_def)
  then show "tlink (init env as0)"
    by (auto simp: tlink_def init_def wlink_def)
  show "well_timed (trace (init env as0))"
    by (simp add: init_def well_timed_def)
qed

lemma reachable_timed:
  assumes "fresh as0" and "back_ok as0" and "reachable env fl ex as0 s"
  shows "tlink s \<and> well_timed (trace s)"
  using assms(3)
proof (induction rule: reachable.induct)
  case r_init
  show ?case by (simp add: tlink_init [OF assms(1)])
next
  case (r_step s t s')
  note inv = reachable_inv1 [OF assms(1) r_step.hyps(1)]
  note ms = reachable_main_spec [OF assms(1,2) r_step.hyps(1)]
  from r_step.hyps(2) show ?case
  proof (cases rule: step_cases)
    case (main n)
    with r_step.IH ms show ?thesis
      by (auto simp: main_spec_def intro: tlink_main_step timed_main_step)
  next
    case (worker w)
    with r_step.IH inv show ?thesis
      by (auto intro: tlink_worker_step timed_worker_step)
  qed
qed

lemma pipeline_timed:
  assumes "pipeline env fl ts = Some s"
  shows "tlink s" and "well_timed (trace s)"
proof -
  from assms obtain ex as0 where "fresh as0" "back_ok as0" "reachable env fl ex as0 s"
    by (rule pipeline_reachable)
  then have "tlink s \<and> well_timed (trace s)" by (rule reachable_timed)
  then show "tlink s" and "well_timed (trace s)" by simp_all
qed

lemma pipeline_ok_event:
  assumes "pipeline env fl ts = Some s" and "n < length (trace s)"
  shows "ok_event (take n (trace s)) (trace s ! n)"
  using pipeline_timed(2) [OF assms(1)] assms(2) by (rule well_timed_nth)

text \<open>Main never reads the \<^verbatim>\<open>info\<close> of a file.\<close>

lemma no_info_read:
  assumes "pipeline env fl ts = Some s"
  shows "Read j InfoF \<notin> set (trace s)"
proof -
  from assms obtain ex as0 where "reachable env fl ex as0 s"
    by (rule pipeline_reachable)
  then show ?thesis
  proof (induction rule: reachable.induct)
    case r_init
    show ?case by (simp add: init_def)
  next
    case (r_step s t s')
    from r_step.hyps(2) show ?case
    proof (cases rule: step_cases)
      case (main n)
      from main(3) r_step.IH show ?thesis
        by (cases rule: main_step_cases) (auto simp: check_reads_def)
    next
      case (worker w)
      from worker(4) obtain es where "trace s' = trace s @ es"
        and "\<forall>e \<in> set es. case e of Recv v j \<Rightarrow> v = w \<and> jobC s = j # jobC s'
           | Send v j \<Rightarrow> v = w \<and> jobC s' = jobC s @ [j] \<and> (\<exists>p i k. workers s ! w = W_Send p i k \<and> j = FileJob p k)
           | Write v j f \<Rightarrow> v = w \<and> (f = InfoF \<longrightarrow> (\<exists>p i k. workers s ! w = W_Files p i k \<and> j = FileJob p k \<and> k < nfiles (arches s) p))
           | Close v j \<Rightarrow> v = w
           | _ \<Rightarrow> False"
        by (rule worker_step_trace)
      with r_step.IH show ?thesis by fastforce
    qed
  qed
qed

lemma pipeline_stuck:
  assumes "pipeline env fl ts = Some s" and "\<And>ex. step env fl ex s t = None"
  shows "pipeline env fl (ts @ [t]) = None"
  using assms by (auto simp: pipeline_def run_append split: sum.splits prod.splits)

section \<open>The claims\<close>

subsection \<open>C7: when processFile invokes the backend\<close>

text \<open>
  Claim C7. Processing a file job invokes the extraction backend if and only if the
  job's constant-reference info is present and references at least one constant. If
  the info is absent the job fails at once with the error "const info for input file
  ... is missing" and no backend call; if the info is present and references no
  constant the job succeeds with empty results, no error and no backend call;
  otherwise the results are the backend's, from exactly one call.
\<close>

theorem processFile_backend:
  "(snd (processFile env ex a f) \<noteq> [] \<longleftrightarrow> (\<exists>i. info f = Some i \<and> Consts i \<noteq> [])) \<and>
   (info f = None \<longrightarrow>
      processFile env ex a f =
        (([], [], Some (''const info for input file '' @
                        Join env [''sys'', OS (target a), name f] @ '' is missing'')), [])) \<and>
   (\<forall>i. info f = Some i \<and> Consts i = [] \<longrightarrow> processFile env ex a f = (([], [], None), [])) \<and>
   (\<forall>i. info f = Some i \<and> Consts i \<noteq> [] \<longrightarrow>
      processFile env ex a f = (Extractor.processFile ex a i, [(a, i)]))"
  by (auto simp: processFile_def Let_def split: option.splits)

theorem processFile_backend_witness:
  "processFile (ex_env 1 [] False) ex_windows ex_arch (newFile 0 ''m.txt'') =
     (([], [], Some ''const info for input file sys/windows/m.txt is missing''), []) \<and>
   processFile (ex_env 1 [] False) ex_windows ex_arch ((newFile 0 ''n.txt'')\<lparr>info := Some \<lparr>Consts = []\<rparr>\<rparr>) =
     (([], [], None), []) \<and>
   processFile (ex_env 1 [] False) ex_windows ex_arch ((newFile 0 ''b.txt'')\<lparr>info := Some \<lparr>Consts = [''Z'']\<rparr>\<rparr>) =
     (([(''Z'', 1)], [], None), [(ex_arch, \<lparr>Consts = [''Z'']\<rparr>)])"
  using processFile_backend [of "ex_env 1 [] False" ex_windows ex_arch "newFile 0 ''m.txt''"]
    processFile_backend [of "ex_env 1 [] False" ex_windows ex_arch "(newFile 0 ''n.txt'')\<lparr>info := Some \<lparr>Consts = []\<rparr>\<rparr>"]
    processFile_backend [of "ex_env 1 [] False" ex_windows ex_arch "(newFile 0 ''b.txt'')\<lparr>info := Some \<lparr>Consts = [''Z'']\<rparr>\<rparr>"]
  by (simp add: newFile_def ex_env_def ex_Join_def ex_arch_def ex_windows_def ex_resolves_def)

subsection \<open>C10: the files of each architecture\<close>

text \<open>
  Claim C10. When an explicit list of definition files is given on the command line,
  every architecture gets that same list (sorted, with the same elements, no filter
  applied). The NoExtract and architecture-support filters are applied only when no
  list is given: then the files of the i-th architecture are the discovered files
  that are not NoExtract and support that architecture, sorted.
\<close>

theorem createArches_files:
  assumes "createArches env fl os archArray fs = Inr as"
  shows "length as = length archArray \<and>
    (fs \<noteq> [] \<longrightarrow> (\<forall>a \<in> set as. map name (files a) = sort fs \<and> mset (map name (files a)) = mset fs)) \<and>
    (fs = [] \<longrightarrow>
       (\<exists>c1 desc c2 allFiles.
          ParseGlob env (Join env [''sys'', os, ''*.txt'']) = (c1, Some desc) \<and>
          FileList env desc os = (c2, Some allFiles) \<and>
          (\<forall>i < length archArray.
             map name (files (as ! i)) =
               sort (map fst (filter (\<lambda>(f, meta). \<not> NoExtract meta \<and> SupportsArch meta (archArray ! i))
                                allFiles)))))"
proof -
  from assms obtain c1 desc c2 allFiles where
    pg: "ParseGlob env (Join env [''sys'', os, ''*.txt'']) = (c1, Some desc)"
    and fl: "FileList env desc os = (c2, Some allFiles)"
    and loop: "createArches_loop env fl os fs allFiles [] archArray = Inr as"
    by (auto simp: createArches_def split: prod.splits option.splits)
  note P = createArches_loop_props [OF loop, simplified]
  have names: "map name (files (as ! i)) = archFiles fs allFiles (archArray ! i)"
    if "i < length archArray" for i
    using P that by (simp add: newFile_def comp_def)
  have 1: "length as = length archArray" using P by simp
  have 2: "map name (files a) = sort fs \<and> mset (map name (files a)) = mset fs"
    if "fs \<noteq> []" "a \<in> set as" for a
  proof -
    from that(2) 1 obtain i where "i < length archArray" "a = as ! i"
      by (metis in_set_conv_nth)
    with names [of i] that(1) show ?thesis
      by (simp add: archFiles_def)
  qed
  have 3: "map name (files (as ! i)) =
      sort (map fst (filter (\<lambda>(f, meta). \<not> NoExtract meta \<and> SupportsArch meta (archArray ! i)) allFiles))"
    if "fs = []" "i < length archArray" for i
    using names [OF that(2)] that(1) by (simp add: archFiles_def)
  from 1 2 3 pg fl show ?thesis by blast
qed

theorem createArches_files_witness:
  "map (\<lambda>a. map name (files a))
     (projr (createArches (ex_env 1 [] False) (ex_flags [] False []) ''windows'' [''386'', ''amd64'']
               [''n.txt'', ''b.txt''])) = [[''b.txt'', ''n.txt''], [''b.txt'', ''n.txt'']]"
proof -
  let ?as = "projr (createArches (ex_env 1 [] False) (ex_flags [] False []) ''windows''
               [''386'', ''amd64''] [''n.txt'', ''b.txt''])"
  have h: "createArches (ex_env 1 [] False) (ex_flags [] False []) ''windows'' [''386'', ''amd64'']
               [''n.txt'', ''b.txt''] = Inr ?as"
    by code_simp
  from createArches_files [OF h] have l: "length ?as = 2"
    and a: "\<forall>a \<in> set ?as. map name (files a) = sort [''n.txt'', ''b.txt'']"
    by simp_all
  have "map (\<lambda>a. map name (files a)) ?as = map (\<lambda>a. sort [''n.txt'', ''b.txt'']) ?as"
    by (rule map_cong) (use a in auto)
  also have "\<dots> = replicate (length ?as) (sort [''n.txt'', ''b.txt''])"
    by (simp add: map_replicate_const)
  finally show ?thesis
    unfolding l by (simp add: numeral_2_eq_2)
qed

subsection \<open>C9: the cross-architecture check runs only after an error-free collection\<close>

text \<open>
  Claim C9. The call of \<^verbatim>\<open>checkUnsupportedCalls\<close> (line 137) is made only when no
  architecture job and no file job has recorded an error, and only when \<^verbatim>\<open>-arch\<close> was not
  given: in every state of every run, if the call has happened then no job of the run has
  an error. For a run that has reached the end of main the converse holds as well, so a
  single job error anywhere makes main skip the check, also for the full set of
  architectures.
\<close>

theorem check_only_without_job_error:
  assumes "pipeline env fl ts = Some s"
  shows "(CallCheck \<in> set (trace s) \<longrightarrow> no_job_error (arches s) \<and> flagArch fl = []) \<and>
    (\<forall>c. mainpc s = M_Exit c \<longrightarrow>
       (CallCheck \<in> set (trace s) \<longleftrightarrow> no_job_error (arches s) \<and> flagArch fl = []))"
  using callcheck_iff [OF assms] by (auto simp: check_runs_def)

text \<open>
  Two runs over the full set of architectures: after an error-free collection the check
  is called; when the architecture \<open>arm\<close> fails its preparation the check is skipped.
\<close>

theorem check_only_without_job_error_witness:
  "pipeline (ex_env 1 [''amd64''] False) (ex_flags [] False [''b.txt''])
       (ex_sched [(10, Worker 0), (12, Main 0)]) \<noteq> None \<and>
   mainpc (the (pipeline (ex_env 1 [''amd64''] False) (ex_flags [] False [''b.txt''])
       (ex_sched [(10, Worker 0), (12, Main 0)]))) = M_Exit 0 \<and>
   CallCheck \<in> set (trace (the (pipeline (ex_env 1 [''amd64''] False) (ex_flags [] False [''b.txt''])
       (ex_sched [(10, Worker 0), (12, Main 0)])))) \<and>
   no_job_error (arches (the (pipeline (ex_env 1 [''amd64''] False) (ex_flags [] False [''b.txt''])
       (ex_sched [(10, Worker 0), (12, Main 0)])))) \<and>
   pipeline (ex_env 1 [''amd64'', ''arm''] False) (ex_flags [] False [''b.txt''])
       (ex_sched [(14, Worker 0), (16, Main 0)]) \<noteq> None \<and>
   mainpc (the (pipeline (ex_env 1 [''amd64'', ''arm''] False) (ex_flags [] False [''b.txt''])
       (ex_sched [(14, Worker 0), (16, Main 0)]))) = M_Exit 1 \<and>
   \<not> no_job_error (arches (the (pipeline (ex_env 1 [''amd64'', ''arm''] False)
       (ex_flags [] False [''b.txt'']) (ex_sched [(14, Worker 0), (16, Main 0)])))) \<and>
   CallCheck \<notin> set (trace (the (pipeline (ex_env 1 [''amd64'', ''arm''] False)
       (ex_flags [] False [''b.txt'']) (ex_sched [(14, Worker 0), (16, Main 0)]))))"
proof -
  let ?p = "pipeline (ex_env 1 [''amd64''] False) (ex_flags [] False [''b.txt''])
       (ex_sched [(10, Worker 0), (12, Main 0)])"
  let ?q = "pipeline (ex_env 1 [''amd64'', ''arm''] False) (ex_flags [] False [''b.txt''])
       (ex_sched [(14, Worker 0), (16, Main 0)])"
  have "\<not> Option.is_none ?p" by code_simp
  then have pn: "?p \<noteq> None" by (simp add: Option.is_none_def)
  then have p: "?p = Some (the ?p)" by simp
  have pm: "mainpc (the ?p) = M_Exit 0" by code_simp
  have pc: "CallCheck \<in> set (trace (the ?p))" by code_simp
  have "\<not> Option.is_none ?q" by code_simp
  then have qn': "?q \<noteq> None" by (simp add: Option.is_none_def)
  then have q: "?q = Some (the ?q)" by simp
  have qm: "mainpc (the ?q) = M_Exit 1" by code_simp
  have qe: "Arch.err (arches (the ?q) ! 1) \<noteq> None" by code_simp
  have ql: "length (arches (the ?q)) = 2" by code_simp
  from qe ql have qn: "\<not> no_job_error (arches (the ?q))"
    unfolding no_job_error_def by (auto intro: exI [of _ 1])
  from check_only_without_job_error [OF p] pc
  have 1: "no_job_error (arches (the ?p))" by blast
  from check_only_without_job_error [OF q] qn
  have 2: "CallCheck \<notin> set (trace (the ?q))" by blast
  from pn pm pc 1 qn' qm qn 2 show ?thesis by blast
qed

subsection \<open>C3: what the cross-architecture check reports\<close>

text \<open>
  Claim C3, as far as it holds. For a run that reaches the end of main: if \<^verbatim>\<open>-arch\<close> was
  not given and no job recorded an error, the check is called, the names it reports are
  exactly the names that are undeclared for some file of some architecture and resolved
  for no file of any architecture, and the exit status is 1 exactly when there is such a
  name; otherwise the check is not called, nothing is reported and the exit status is 1
  exactly when a job recorded an error. The claim itself leaves out the condition that no
  job recorded an error (line 136 tests \<^verbatim>\<open>!failed\<close> too).
\<close>

theorem unsupported_report:
  assumes p: "pipeline env fl ts = Some s" and x: "mainpc s = M_Exit c"
  shows "(flagArch fl = [] \<and> no_job_error (arches s) \<longrightarrow>
       CallCheck \<in> set (trace s) \<and>
       {n. \<exists>f. Print_unsupported f n \<in> set (trace s)} =
         undeclared_names (arches s) - resolved_names (arches s) \<and>
       c = (if undeclared_names (arches s) - resolved_names (arches s) = {} then 0 else 1)) \<and>
    (\<not> (flagArch fl = [] \<and> no_job_error (arches s)) \<longrightarrow>
       CallCheck \<notin> set (trace s) \<and> (\<forall>f n. Print_unsupported f n \<notin> set (trace s)) \<and>
       c = (if no_job_error (arches s) then 0 else 1))"
proof -
  from late_explicit(6) [OF p x] obtain dn where
    c: "c = (if check_failed fl (arches s) (\<not> no_job_error (arches s)) then 1 else 0)"
    and m: "mev (trace s) = concat (map (arch_events (flagOS fl) (arches s)) [0..<length (arches s)]) @
                 concat (map (write_events env fl) dn) @
                 check_events fl (arches s) (\<not> no_job_error (arches s)) @
                 cleanup_events (arches s) (length (arches s))"
    by blast
  have u: "Print_unsupported f n \<in> set (trace s) \<longleftrightarrow>
      check_runs fl (\<not> no_job_error (arches s)) \<and> (f, n) \<in> set (unsupportedReport (arches s))" for f n
  proof -
    have "Print_unsupported f n \<in> set (trace s) \<longleftrightarrow> Print_unsupported f n \<in> set (mev (trace s))"
      by (simp add: in_mev is_worker_event_def)
    also have "\<dots> \<longleftrightarrow> Print_unsupported f n \<in> set (check_events fl (arches s) (\<not> no_job_error (arches s)))"
      unfolding m by simp
    also have "\<dots> \<longleftrightarrow> check_runs fl (\<not> no_job_error (arches s)) \<and>
        (f, n) \<in> set (unsupportedReport (arches s))"
      by (auto simp: check_events_def check_reads_def checkUnsupportedCalls_def)
    finally show ?thesis .
  qed
  have k: "CallCheck \<in> set (trace s) \<longleftrightarrow> check_runs fl (\<not> no_job_error (arches s))"
    using callcheck_iff [OF p] x by simp
  have r: "{n. \<exists>f. (f, n) \<in> set (unsupportedReport (arches s))} =
      undeclared_names (arches s) - resolved_names (arches s)"
    unfolding unsupportedReport_names [symmetric] by force
  have e: "unsupportedReport (arches s) \<noteq> [] \<longleftrightarrow>
      undeclared_names (arches s) - resolved_names (arches s) \<noteq> {}"
    unfolding unsupportedReport_names [symmetric] by simp
  show ?thesis
  proof (cases "flagArch fl = [] \<and> no_job_error (arches s)")
    case True
    then have cr: "check_runs fl (\<not> no_job_error (arches s))" by (simp add: check_runs_def)
    with True k u r e c show ?thesis
      by (simp add: check_failed_def checkUnsupportedCalls_def)
  next
    case False
    then have cr: "\<not> check_runs fl (\<not> no_job_error (arches s))" by (auto simp: check_runs_def)
    with False k u c show ?thesis
      by (auto simp: check_failed_def)
  qed
qed

text \<open>
  A run over the architectures 386 and amd64: \<open>U\<close> is undeclared everywhere and reported,
  \<open>Y\<close> is undeclared on 386 but resolved on amd64 and not reported.
\<close>

theorem unsupported_report_witness:
  "pipeline (ex_env 2 [''386'', ''amd64''] False) (ex_flags [] False [''a.txt'', ''u.txt''])
       (ex_sched [(7, Worker 0), (1, Worker 1), (8, Worker 0), (5, Worker 1), (3, Worker 0),
                  (2, Worker 1), (3, Worker 0), (1, Worker 1), (24, Main 0)]) \<noteq> None \<and>
   mainpc (the (pipeline (ex_env 2 [''386'', ''amd64''] False) (ex_flags [] False [''a.txt'', ''u.txt''])
       (ex_sched [(7, Worker 0), (1, Worker 1), (8, Worker 0), (5, Worker 1), (3, Worker 0),
                  (2, Worker 1), (3, Worker 0), (1, Worker 1), (24, Main 0)]))) = M_Exit 1 \<and>
   no_job_error (arches (the (pipeline (ex_env 2 [''386'', ''amd64''] False)
       (ex_flags [] False [''a.txt'', ''u.txt''])
       (ex_sched [(7, Worker 0), (1, Worker 1), (8, Worker 0), (5, Worker 1), (3, Worker 0),
                  (2, Worker 1), (3, Worker 0), (1, Worker 1), (24, Main 0)])))) \<and>
   ''U'' \<in> undeclared_names (arches (the (pipeline (ex_env 2 [''386'', ''amd64''] False)
       (ex_flags [] False [''a.txt'', ''u.txt''])
       (ex_sched [(7, Worker 0), (1, Worker 1), (8, Worker 0), (5, Worker 1), (3, Worker 0),
                  (2, Worker 1), (3, Worker 0), (1, Worker 1), (24, Main 0)])))) \<and>
   ''U'' \<notin> resolved_names (arches (the (pipeline (ex_env 2 [''386'', ''amd64''] False)
       (ex_flags [] False [''a.txt'', ''u.txt''])
       (ex_sched [(7, Worker 0), (1, Worker 1), (8, Worker 0), (5, Worker 1), (3, Worker 0),
                  (2, Worker 1), (3, Worker 0), (1, Worker 1), (24, Main 0)])))) \<and>
   ''Y'' \<in> undeclared_names (arches (the (pipeline (ex_env 2 [''386'', ''amd64''] False)
       (ex_flags [] False [''a.txt'', ''u.txt''])
       (ex_sched [(7, Worker 0), (1, Worker 1), (8, Worker 0), (5, Worker 1), (3, Worker 0),
                  (2, Worker 1), (3, Worker 0), (1, Worker 1), (24, Main 0)])))) \<and>
   ''Y'' \<in> resolved_names (arches (the (pipeline (ex_env 2 [''386'', ''amd64''] False)
       (ex_flags [] False [''a.txt'', ''u.txt''])
       (ex_sched [(7, Worker 0), (1, Worker 1), (8, Worker 0), (5, Worker 1), (3, Worker 0),
                  (2, Worker 1), (3, Worker 0), (1, Worker 1), (24, Main 0)])))) \<and>
   (\<exists>f. Print_unsupported f ''U'' \<in> set (trace (the (pipeline (ex_env 2 [''386'', ''amd64''] False)
       (ex_flags [] False [''a.txt'', ''u.txt''])
       (ex_sched [(7, Worker 0), (1, Worker 1), (8, Worker 0), (5, Worker 1), (3, Worker 0),
                  (2, Worker 1), (3, Worker 0), (1, Worker 1), (24, Main 0)]))))) \<and>
   \<not> (\<exists>f. Print_unsupported f ''Y'' \<in> set (trace (the (pipeline (ex_env 2 [''386'', ''amd64''] False)
       (ex_flags [] False [''a.txt'', ''u.txt''])
       (ex_sched [(7, Worker 0), (1, Worker 1), (8, Worker 0), (5, Worker 1), (3, Worker 0),
                  (2, Worker 1), (3, Worker 0), (1, Worker 1), (24, Main 0)])))))"
proof -
  let ?p = "pipeline (ex_env 2 [''386'', ''amd64''] False) (ex_flags [] False [''a.txt'', ''u.txt''])
       (ex_sched [(7, Worker 0), (1, Worker 1), (8, Worker 0), (5, Worker 1), (3, Worker 0),
                  (2, Worker 1), (3, Worker 0), (1, Worker 1), (24, Main 0)])"
  have "case ?p of None \<Rightarrow> False
     | Some s \<Rightarrow> mainpc s = M_Exit 1 \<and>
         (\<forall>p < length (arches s). Arch.err (arches s ! p) = None \<and>
            (\<forall>k < nfiles (arches s) p. File.err (the_file (arches s) p k) = None)) \<and>
         (\<exists>a \<in> set (arches s). \<exists>f \<in> set (files a). ''U'' \<in> fst ` set (undeclared f)) \<and>
         (\<exists>a \<in> set (arches s). \<exists>f \<in> set (files a). ''Y'' \<in> fst ` set (undeclared f)) \<and>
         \<not> (\<exists>a \<in> set (arches s). \<exists>f \<in> set (files a). ''U'' \<in> fst ` set (file_consts f)) \<and>
         (\<exists>a \<in> set (arches s). \<exists>f \<in> set (files a). ''Y'' \<in> fst ` set (file_consts f))"
    by code_simp
  note k = some_caseD [OF this]
  let ?s = "the ?p"
  from k have pn: "?p \<noteq> None" and ps: "?p = Some ?s" and m: "mainpc ?s = M_Exit 1"
    and n: "no_job_error (arches ?s)"
    and u: "''U'' \<in> undeclared_names (arches ?s)" and y: "''Y'' \<in> undeclared_names (arches ?s)"
    and ur: "''U'' \<notin> resolved_names (arches ?s)" and yr: "''Y'' \<in> resolved_names (arches ?s)"
    unfolding no_job_error_def undeclared_names_def resolved_names_def mem_Collect_eq
    by blast+
  note p = ps
  have fa: "flagArch (ex_flags [] False [''a.txt'', ''u.txt'']) = []" by (simp add: ex_flags_def)
  from unsupported_report [OF p m] fa n
  have e: "{n. \<exists>f. Print_unsupported f n \<in> set (trace (the ?p))} =
      undeclared_names (arches (the ?p)) - resolved_names (arches (the ?p))"
    by blast
  from u ur have "''U'' \<in> {n. \<exists>f. Print_unsupported f n \<in> set (trace (the ?p))}"
    unfolding e by blast
  then have 1: "\<exists>f. Print_unsupported f ''U'' \<in> set (trace (the ?p))" by blast
  from yr have "''Y'' \<notin> {n. \<exists>f. Print_unsupported f n \<in> set (trace (the ?p))}"
    unfolding e by blast
  then have 2: "\<not> (\<exists>f. Print_unsupported f ''Y'' \<in> set (trace (the ?p)))" by blast
  from pn m n u ur y yr 1 2 show ?thesis by blast
qed

text \<open>
  Against claim C3 as stated: a run without \<^verbatim>\<open>-arch\<close> in which the file job of \<open>e.txt\<close>
  fails. The name \<open>U\<close> is undeclared and resolved nowhere, and \<^verbatim>\<open>checkUnsupportedCalls\<close>
  would report it on the final results, but main ends without having printed anything
  beyond the progress line and the file error.
\<close>

theorem unsupported_not_reported_after_job_error:
  "flagArch (ex_flags [] False [''e.txt'', ''u.txt'']) = [] \<and>
   pipeline (ex_env 2 [''amd64''] False) (ex_flags [] False [''e.txt'', ''u.txt''])
       (ex_sched [(7, Worker 0), (3, Worker 1), (5, Worker 0), (14, Main 0)]) \<noteq> None \<and>
   mainpc (the (pipeline (ex_env 2 [''amd64''] False) (ex_flags [] False [''e.txt'', ''u.txt''])
       (ex_sched [(7, Worker 0), (3, Worker 1), (5, Worker 0), (14, Main 0)]))) = M_Exit 1 \<and>
   unsupportedReport (arches (the (pipeline (ex_env 2 [''amd64''] False)
       (ex_flags [] False [''e.txt'', ''u.txt''])
       (ex_sched [(7, Worker 0), (3, Worker 1), (5, Worker 0), (14, Main 0)])))) =
     [(''u.txt'', ''U'')] \<and>
   ''U'' \<in> undeclared_names (arches (the (pipeline (ex_env 2 [''amd64''] False)
       (ex_flags [] False [''e.txt'', ''u.txt''])
       (ex_sched [(7, Worker 0), (3, Worker 1), (5, Worker 0), (14, Main 0)])))) \<and>
   ''U'' \<notin> resolved_names (arches (the (pipeline (ex_env 2 [''amd64''] False)
       (ex_flags [] False [''e.txt'', ''u.txt''])
       (ex_sched [(7, Worker 0), (3, Worker 1), (5, Worker 0), (14, Main 0)])))) \<and>
   filter (\<lambda>e. printed e \<noteq> []) (trace (the (pipeline (ex_env 2 [''amd64''] False)
       (ex_flags [] False [''e.txt'', ''u.txt''])
       (ex_sched [(7, Worker 0), (3, Worker 1), (5, Worker 0), (14, Main 0)])))) =
     [Print_generating ''windows'' ''amd64'', Print_file_err ''e.txt'' ''compile error'']"
proof -
  let ?p = "pipeline (ex_env 2 [''amd64''] False) (ex_flags [] False [''e.txt'', ''u.txt''])
       (ex_sched [(7, Worker 0), (3, Worker 1), (5, Worker 0), (14, Main 0)])"
  have "case ?p of None \<Rightarrow> False
     | Some s \<Rightarrow> mainpc s = M_Exit 1 \<and>
         unsupportedReport (arches s) = [(''u.txt'', ''U'')] \<and>
         (\<exists>a \<in> set (arches s). \<exists>f \<in> set (files a). ''U'' \<in> fst ` set (undeclared f)) \<and>
         \<not> (\<exists>a \<in> set (arches s). \<exists>f \<in> set (files a). ''U'' \<in> fst ` set (file_consts f)) \<and>
         filter (\<lambda>e. printed e \<noteq> []) (trace s) =
           [Print_generating ''windows'' ''amd64'', Print_file_err ''e.txt'' ''compile error'']"
    by code_simp
  note k = some_caseD [OF this]
  let ?s = "the ?p"
  from k have pn: "?p \<noteq> None" and ps: "?p = Some ?s" and m: "mainpc ?s = M_Exit 1"
    and r: "unsupportedReport (arches ?s) = [(''u.txt'', ''U'')]"
    and u: "''U'' \<in> undeclared_names (arches ?s)"
    and ur: "''U'' \<notin> resolved_names (arches ?s)"
    and f: "filter (\<lambda>e. printed e \<noteq> []) (trace ?s) =
           [Print_generating ''windows'' ''amd64'', Print_file_err ''e.txt'' ''compile error'']"
    unfolding undeclared_names_def resolved_names_def mem_Collect_eq
    by blast+
  have fa: "flagArch (ex_flags [] False [''e.txt'', ''u.txt'']) = []" by (simp add: ex_flags_def)
  from fa pn m r u ur f show ?thesis by blast
qed

subsection \<open>C6: the tables are serialized once each, unless a write fails\<close>

text \<open>
  Claim C6, as far as it holds. The names of the accumulated tables are distinct. Once
  main has left the loop of line 124, what it has done with the done channels and the
  file system is: all receives of the collection, in order, and then, for every table
  once, in some order, \<^verbatim>\<open>Serialize\<close> followed by \<^verbatim>\<open>os.Remove\<close> when the data is empty and by
  a successful \<^verbatim>\<open>WriteFile\<close> of the data to \<open>sys/OS/name.const\<close> otherwise. When main has
  exited through \<^verbatim>\<open>tool.Failf\<close> (line 132) only some of the tables have been visited, the
  last one with a failed write. The claim itself does not provide for this exit.
\<close>

theorem tables_serialized:
  assumes p: "pipeline env fl ts = Some s"
  shows "distinct (map fst (constFiles s)) \<and>
    (written (mainpc s) \<longrightarrow>
       (\<exists>dn. mset dn = mset (constFiles s) \<and> (\<forall>x \<in> set dn. \<not> write_fails env fl x) \<and>
          filter (\<lambda>e. is_wait e \<or> is_fs e) (trace s) =
            drain_order (arches s) @ concat (map (write_events env fl) dn))) \<and>
    (\<forall>m. mainpc s = M_Failf m \<longrightarrow>
       (\<exists>dn x. mset dn + {#x#} \<subseteq># mset (constFiles s) \<and>
          (\<forall>y \<in> set dn. \<not> write_fails env fl y) \<and> write_fails env fl x \<and>
          filter (\<lambda>e. is_wait e \<or> is_fs e) (trace s) =
            drain_order (arches s) @ concat (map (write_events env fl) dn) @ write_events env fl x))"
proof -
  from p obtain ex as0 where r: "reachable env fl ex as0 s"
    by (rule pipeline_reachable)
  have f: "filter (\<lambda>e. is_wait e \<or> is_fs e) (trace s) =
      filter (\<lambda>e. is_wait e \<or> is_fs e) (mev (trace s))"
    by (rule filter_mev [symmetric]) auto
  note l = late_explicit [OF p]
  have o: "filter (\<lambda>e. is_wait e \<or> is_fs e)
        (concat (map (arch_events (flagOS fl) (arches s)) [0..<length (arches s)])) =
      drain_order (arches s)"
    by (rule trans [OF filter_or_left [OF out0_no(1)] drain_order_eq])
  have w: "filter (\<lambda>e. is_wait e \<or> is_fs e) (concat (map (write_events env fl) dn)) =
      concat (map (write_events env fl) dn)" for dn
    by (simp add: filter_or_right)
  have w1: "filter (\<lambda>e. is_wait e \<or> is_fs e) (write_events env fl x) = write_events env fl x" for x
    by (simp add: filter_or_right)
  have c: "filter (\<lambda>e. is_wait e \<or> is_fs e) (check_events fl (arches s) f0) = []"
    "filter (\<lambda>e. is_wait e \<or> is_fs e) (cleanup_events (arches s) i) = []" for f0 i
    by (simp_all add: filter_or_none)
  have 1: "\<exists>dn. mset dn = mset (constFiles s) \<and> (\<forall>x \<in> set dn. \<not> write_fails env fl x) \<and>
          filter (\<lambda>e. is_wait e \<or> is_fs e) (trace s) =
            drain_order (arches s) @ concat (map (write_events env fl) dn)"
    if "written (mainpc s)"
  proof (cases "mainpc s")
    case M_Check
    from l(4) [OF this] show ?thesis unfolding f by (auto simp: o w)
  next
    case (M_Cleanup i)
    from l(5) [OF this] show ?thesis unfolding f by (auto simp: o w c)
  next
    case (M_Exit c')
    from l(6) [OF this] show ?thesis unfolding f by (auto simp: o w c)
  qed (use that in \<open>simp_all add: written_def\<close>)
  have 2: "\<exists>dn x. mset dn + {#x#} \<subseteq># mset (constFiles s) \<and>
          (\<forall>y \<in> set dn. \<not> write_fails env fl y) \<and> write_fails env fl x \<and>
          filter (\<lambda>e. is_wait e \<or> is_fs e) (trace s) =
            drain_order (arches s) @ concat (map (write_events env fl) dn) @ write_events env fl x"
    if "mainpc s = M_Failf m" for m
  proof -
    from l(3) [OF that] obtain dn x where
      a: "mset dn + {#x#} \<subseteq># mset (constFiles s)" "\<forall>y \<in> set dn. \<not> write_fails env fl y"
        "write_fails env fl x"
      and m: "mev (trace s) = concat (map (arch_events (flagOS fl) (arches s)) [0..<length (arches s)]) @
                 concat (map (write_events env fl) dn) @ write_events env fl x"
      by blast
    have "filter (\<lambda>e. is_wait e \<or> is_fs e) (trace s) =
            drain_order (arches s) @ concat (map (write_events env fl) dn) @ write_events env fl x"
      unfolding f m by (simp add: o w w1)
    with a show ?thesis by blast
  qed
  from 1 2 reachable_distinct_keys [OF r] show ?thesis by blast
qed

text \<open>A run with two tables: the one of \<open>b.txt\<close> is written, the empty one of \<open>n.txt\<close> removed.\<close>

theorem tables_serialized_witness:
  "pipeline (ex_env 2 [''amd64''] False) (ex_flags [] False [''b.txt'', ''n.txt''])
       (ex_sched [(7, Worker 0), (3, Worker 1), (5, Worker 0), (15, Main 0)]) \<noteq> None \<and>
   mainpc (the (pipeline (ex_env 2 [''amd64''] False) (ex_flags [] False [''b.txt'', ''n.txt''])
       (ex_sched [(7, Worker 0), (3, Worker 1), (5, Worker 0), (15, Main 0)]))) = M_Exit 0 \<and>
   map fst (constFiles (the (pipeline (ex_env 2 [''amd64''] False)
       (ex_flags [] False [''b.txt'', ''n.txt''])
       (ex_sched [(7, Worker 0), (3, Worker 1), (5, Worker 0), (15, Main 0)])))) =
     [''b.txt'', ''n.txt''] \<and>
   filter is_fs (trace (the (pipeline (ex_env 2 [''amd64''] False)
       (ex_flags [] False [''b.txt'', ''n.txt''])
       (ex_sched [(7, Worker 0), (3, Worker 1), (5, Worker 0), (15, Main 0)])))) =
     [Serialized ''b.txt'', Wrote ''sys/windows/b.txt.const'' ''Z_amd64;'' None,
      Serialized ''n.txt'', Removed ''sys/windows/n.txt.const''] \<and>
   (\<exists>dn. mset dn = mset (constFiles (the (pipeline (ex_env 2 [''amd64''] False)
         (ex_flags [] False [''b.txt'', ''n.txt''])
         (ex_sched [(7, Worker 0), (3, Worker 1), (5, Worker 0), (15, Main 0)])))) \<and>
      filter (\<lambda>e. is_wait e \<or> is_fs e) (trace (the (pipeline (ex_env 2 [''amd64''] False)
         (ex_flags [] False [''b.txt'', ''n.txt''])
         (ex_sched [(7, Worker 0), (3, Worker 1), (5, Worker 0), (15, Main 0)])))) =
      drain_order (arches (the (pipeline (ex_env 2 [''amd64''] False)
         (ex_flags [] False [''b.txt'', ''n.txt''])
         (ex_sched [(7, Worker 0), (3, Worker 1), (5, Worker 0), (15, Main 0)])))) @
      concat (map (write_events (ex_env 2 [''amd64''] False)
         (ex_flags [] False [''b.txt'', ''n.txt''])) dn))"
proof -
  let ?p = "pipeline (ex_env 2 [''amd64''] False) (ex_flags [] False [''b.txt'', ''n.txt''])
       (ex_sched [(7, Worker 0), (3, Worker 1), (5, Worker 0), (15, Main 0)])"
  have "case ?p of None \<Rightarrow> False
     | Some s \<Rightarrow> mainpc s = M_Exit 0 \<and> map fst (constFiles s) = [''b.txt'', ''n.txt''] \<and>
         filter is_fs (trace s) =
           [Serialized ''b.txt'', Wrote ''sys/windows/b.txt.const'' ''Z_amd64;'' None,
            Serialized ''n.txt'', Removed ''sys/windows/n.txt.const'']"
    by code_simp
  note k = some_caseD [OF this]
  let ?s = "the ?p"
  from k have pn: "?p \<noteq> None" and ps: "?p = Some ?s" and m: "mainpc ?s = M_Exit 0"
    and c: "map fst (constFiles ?s) = [''b.txt'', ''n.txt'']"
    and f: "filter is_fs (trace ?s) =
           [Serialized ''b.txt'', Wrote ''sys/windows/b.txt.const'' ''Z_amd64;'' None,
            Serialized ''n.txt'', Removed ''sys/windows/n.txt.const'']"
    by blast+
  from m have w: "written (mainpc ?s)" by (simp add: written_def)
  from tables_serialized [OF ps] w
  have "\<exists>dn. mset dn = mset (constFiles ?s) \<and>
      filter (\<lambda>e. is_wait e \<or> is_fs e) (trace ?s) =
      drain_order (arches ?s) @
      concat (map (write_events (ex_env 2 [''amd64''] False)
         (ex_flags [] False [''b.txt'', ''n.txt''])) dn)"
    by blast
  with pn m c f show ?thesis by blast
qed

text \<open>
  Against claim C6 as stated: when the write of the first table fails, main exits and the
  table of \<open>b.txt\<close> is never serialized, although all jobs had been drained.
\<close>

theorem table_left_unserialized:
  "pipeline (ex_env 2 [''amd64''] True) (ex_flags [] False [''a.txt'', ''b.txt''])
       (ex_sched [(7, Worker 0), (3, Worker 1), (5, Worker 0), (10, Main 0)]) \<noteq> None \<and>
   mainpc (the (pipeline (ex_env 2 [''amd64''] True) (ex_flags [] False [''a.txt'', ''b.txt''])
       (ex_sched [(7, Worker 0), (3, Worker 1), (5, Worker 0), (10, Main 0)]))) =
     M_Failf ''failed to write output file: permission denied'' \<and>
   filter is_wait (trace (the (pipeline (ex_env 2 [''amd64''] True)
       (ex_flags [] False [''a.txt'', ''b.txt''])
       (ex_sched [(7, Worker 0), (3, Worker 1), (5, Worker 0), (10, Main 0)])))) =
     [Wait (ArchJob 0), Wait (FileJob 0 0), Wait (FileJob 0 1)] \<and>
   map fst (constFiles (the (pipeline (ex_env 2 [''amd64''] True)
       (ex_flags [] False [''a.txt'', ''b.txt''])
       (ex_sched [(7, Worker 0), (3, Worker 1), (5, Worker 0), (10, Main 0)])))) =
     [''a.txt'', ''b.txt''] \<and>
   filter is_fs (trace (the (pipeline (ex_env 2 [''amd64''] True)
       (ex_flags [] False [''a.txt'', ''b.txt''])
       (ex_sched [(7, Worker 0), (3, Worker 1), (5, Worker 0), (10, Main 0)])))) =
     [Serialized ''a.txt'',
      Wrote ''sys/windows/a.txt.const'' ''X_amd64;Y_amd64;'' (Some ''permission denied'')]"
proof -
  let ?p = "pipeline (ex_env 2 [''amd64''] True) (ex_flags [] False [''a.txt'', ''b.txt''])
       (ex_sched [(7, Worker 0), (3, Worker 1), (5, Worker 0), (10, Main 0)])"
  have "case ?p of None \<Rightarrow> False
     | Some s \<Rightarrow> mainpc s = M_Failf ''failed to write output file: permission denied'' \<and>
         filter is_wait (trace s) = [Wait (ArchJob 0), Wait (FileJob 0 0), Wait (FileJob 0 1)] \<and>
         map fst (constFiles s) = [''a.txt'', ''b.txt''] \<and>
         filter is_fs (trace s) =
           [Serialized ''a.txt'',
            Wrote ''sys/windows/a.txt.const'' ''X_amd64;Y_amd64;'' (Some ''permission denied'')]"
    by code_simp
  note k = some_caseD [OF this]
  let ?s = "the ?p"
  from k have pn: "?p \<noteq> None" and ps: "?p = Some ?s"
    and m: "mainpc ?s = M_Failf ''failed to write output file: permission denied''"
    and w: "filter is_wait (trace ?s) = [Wait (ArchJob 0), Wait (FileJob 0 0), Wait (FileJob 0 1)]"
    and c: "map fst (constFiles ?s) = [''a.txt'', ''b.txt'']"
    and f: "filter is_fs (trace ?s) =
           [Serialized ''a.txt'',
            Wrote ''sys/windows/a.txt.const'' ''X_amd64;Y_amd64;'' (Some ''permission denied'')]"
    by blast+
  from pn m w c f show ?thesis by blast
qed

subsection \<open>C8: the build directories\<close>

text \<open>
  Claim C8, as far as it holds. In build mode every architecture owns the temporary
  directory that \<^verbatim>\<open>ioutil.TempDir\<close> returned for it. A run that reaches the end of main has
  called \<^verbatim>\<open>os.RemoveAll\<close> once for each of them, in order, after all receives of the
  collection, whether or not the jobs failed; in the loop of line 139 it has done so for
  the architectures before the current one; and before that loop, and after an exit
  through \<^verbatim>\<open>tool.Failf\<close> or a panic, nothing has been removed. The claim itself says
  "on every exit path".
\<close>

theorem build_dirs_removed:
  assumes p: "pipeline env fl ts = Some s" and b: "flagBuild fl"
  shows "(\<forall>i < length (arches s). build (arches s ! i) \<and> TempDir env i = Inr (buildDir (arches s ! i))) \<and>
    (\<forall>c. mainpc s = M_Exit c \<longrightarrow>
       filter (\<lambda>e. is_wait e \<or> is_rm e) (trace s) =
         drain_order (arches s) @ map (\<lambda>a. RemovedAll (buildDir a)) (arches s)) \<and>
    (\<forall>i. mainpc s = M_Cleanup i \<longrightarrow>
       filter (\<lambda>e. is_wait e \<or> is_rm e) (trace s) =
         drain_order (arches s) @ map (\<lambda>a. RemovedAll (buildDir a)) (take i (arches s))) \<and>
    ((\<forall>c. mainpc s \<noteq> M_Exit c) \<and> (\<forall>i. mainpc s \<noteq> M_Cleanup i) \<longrightarrow> filter is_rm (trace s) = [])"
proof -
  note st = pipeline_static [OF p]
  with b have 1: "\<forall>i < length (arches s). build (arches s ! i) \<and> TempDir env i = Inr (buildDir (arches s ! i))"
    by simp
  then have "\<forall>a \<in> set (take i (arches s)). build a" for i
    by (auto simp: in_set_conv_nth)
  then have ce: "cleanup_events (arches s) i = map (\<lambda>a. RemovedAll (buildDir a)) (take i (arches s))" for i
    by (simp add: cleanup_events_def)
  have f: "filter (\<lambda>e. is_wait e \<or> is_rm e) (trace s) =
      filter (\<lambda>e. is_wait e \<or> is_rm e) (mev (trace s))"
    by (rule filter_mev [symmetric]) auto
  have g: "filter is_rm (trace s) = filter is_rm (mev (trace s))"
    by (rule filter_mev [symmetric]) auto
  note l = late_explicit [OF p]
  note i = pipeline_invs [OF p]
  have o: "filter (\<lambda>e. is_wait e \<or> is_rm e)
        (concat (map (arch_events (flagOS fl) (arches s)) [0..<length (arches s)])) =
      drain_order (arches s)"
    by (rule trans [OF filter_or_left [OF out0_no(2)] drain_order_eq])
  have w: "filter (\<lambda>e. is_wait e \<or> is_rm e) (concat (map (write_events env fl) dn)) = []"
    "filter (\<lambda>e. is_wait e \<or> is_rm e) (check_events fl (arches s) f0) = []" for dn f0
    by (simp_all add: filter_or_none)
  have c: "filter (\<lambda>e. is_wait e \<or> is_rm e) (map (\<lambda>a. RemovedAll (buildDir a)) xs) =
      map (\<lambda>a. RemovedAll (buildDir a)) xs" for xs
    by (induction xs) (simp_all add: is_rm_def)
  have 2: "filter (\<lambda>e. is_wait e \<or> is_rm e) (trace s) =
         drain_order (arches s) @ map (\<lambda>a. RemovedAll (buildDir a)) (arches s)"
    if "mainpc s = M_Exit c" for c
    using l(6) [OF that] unfolding f by (auto simp: o w c ce)
  have 3: "filter (\<lambda>e. is_wait e \<or> is_rm e) (trace s) =
         drain_order (arches s) @ map (\<lambda>a. RemovedAll (buildDir a)) (take i (arches s))"
    if "mainpc s = M_Cleanup i" for i
    using l(5) [OF that] unfolding f by (auto simp: o w c ce)
  have 4: "filter is_rm (trace s) = []"
    if "\<forall>c. mainpc s \<noteq> M_Exit c" "\<forall>i. mainpc s \<noteq> M_Cleanup i"
  proof (cases "collected (mainpc s)")
    case True
    with that show ?thesis
      unfolding g using l(2-4)
      by (cases "mainpc s") (auto simp: collected_def)
  next
    case False
    then have "case mainpc s of M_Arch i \<Rightarrow> True | M_WaitArch i \<Rightarrow> True | M_ArchErr i \<Rightarrow> True
              | M_File i k \<Rightarrow> True | M_FileErr i k \<Rightarrow> True | _ \<Rightarrow> False"
      using i(4) by (cases "mainpc s") (simp_all add: collected_def)
    then have co: "is_coll e" if "e \<in> set (mev (trace s))" for e
      using coll_phase_events [OF i(2) _ that] by simp
    have "\<not> is_rm e" if "is_coll e" for e
      using that by (cases e) (simp_all add: is_coll_def is_rm_def)
    with co have "\<forall>e \<in> set (mev (trace s)). \<not> is_rm e" by blast
    then show ?thesis
      unfolding g by (simp only: filter_empty_conv simp_thms)
  qed
  from 1 2 3 4 show ?thesis by blast
qed

text \<open>
  A run in build mode in which the architecture \<open>arm\<close> fails: both directories are removed,
  after the last receive.
\<close>

theorem build_dirs_removed_witness:
  "flagBuild (ex_flags [] True [''b.txt'']) \<and>
   pipeline (ex_env 1 [''amd64'', ''arm''] False) (ex_flags [] True [''b.txt''])
       (ex_sched [(14, Worker 0), (16, Main 0)]) \<noteq> None \<and>
   mainpc (the (pipeline (ex_env 1 [''amd64'', ''arm''] False) (ex_flags [] True [''b.txt''])
       (ex_sched [(14, Worker 0), (16, Main 0)]))) = M_Exit 1 \<and>
   map buildDir (arches (the (pipeline (ex_env 1 [''amd64'', ''arm''] False)
       (ex_flags [] True [''b.txt'']) (ex_sched [(14, Worker 0), (16, Main 0)])))) =
     [''/tmp/syzkaller-kernel-build0'', ''/tmp/syzkaller-kernel-build00''] \<and>
   map Arch.err (arches (the (pipeline (ex_env 1 [''amd64'', ''arm''] False)
       (ex_flags [] True [''b.txt'']) (ex_sched [(14, Worker 0), (16, Main 0)])))) =
     [None, Some ''no headers for arm''] \<and>
   filter (\<lambda>e. is_wait e \<or> is_rm e) (trace (the (pipeline (ex_env 1 [''amd64'', ''arm''] False)
       (ex_flags [] True [''b.txt'']) (ex_sched [(14, Worker 0), (16, Main 0)])))) =
     [Wait (ArchJob 0), Wait (FileJob 0 0), Wait (ArchJob 1),
      RemovedAll ''/tmp/syzkaller-kernel-build0'', RemovedAll ''/tmp/syzkaller-kernel-build00'']"
proof -
  let ?p = "pipeline (ex_env 1 [''amd64'', ''arm''] False) (ex_flags [] True [''b.txt''])
       (ex_sched [(14, Worker 0), (16, Main 0)])"
  have "case ?p of None \<Rightarrow> False
     | Some s \<Rightarrow> mainpc s = M_Exit 1 \<and>
         map buildDir (arches s) =
           [''/tmp/syzkaller-kernel-build0'', ''/tmp/syzkaller-kernel-build00''] \<and>
         map Arch.err (arches s) = [None, Some ''no headers for arm''] \<and>
         drain_order (arches s) = [Wait (ArchJob 0), Wait (FileJob 0 0), Wait (ArchJob 1)]"
    by code_simp
  note k = some_caseD [OF this]
  let ?s = "the ?p"
  from k have pn: "?p \<noteq> None" and ps: "?p = Some ?s" and m: "mainpc ?s = M_Exit 1"
    and b: "map buildDir (arches ?s) =
           [''/tmp/syzkaller-kernel-build0'', ''/tmp/syzkaller-kernel-build00'']"
    and e: "map Arch.err (arches ?s) = [None, Some ''no headers for arm'']"
    and d: "drain_order (arches ?s) = [Wait (ArchJob 0), Wait (FileJob 0 0), Wait (ArchJob 1)]"
    by blast+
  have fb: "flagBuild (ex_flags [] True [''b.txt''])" by (simp add: ex_flags_def)
  from build_dirs_removed [OF ps fb] m
  have "filter (\<lambda>e. is_wait e \<or> is_rm e) (trace ?s) =
      drain_order (arches ?s) @ map (\<lambda>a. RemovedAll (buildDir a)) (arches ?s)"
    by blast
  also have "map (\<lambda>a. RemovedAll (buildDir a)) (arches ?s) = map RemovedAll (map buildDir (arches ?s))"
    by simp
  finally have "filter (\<lambda>e. is_wait e \<or> is_rm e) (trace ?s) =
     [Wait (ArchJob 0), Wait (FileJob 0 0), Wait (ArchJob 1),
      RemovedAll ''/tmp/syzkaller-kernel-build0'', RemovedAll ''/tmp/syzkaller-kernel-build00'']"
    unfolding b d by simp
  with fb pn m b e show ?thesis by blast
qed

text \<open>
  Against claim C8 as stated: in build mode, when the write of a table fails, main exits
  at line 132 and the build directory it created stays behind.
\<close>

theorem build_dir_left_behind:
  "flagBuild (ex_flags [] True [''b.txt'']) \<and>
   pipeline (ex_env 1 [''amd64''] True) (ex_flags [] True [''b.txt''])
       (ex_sched [(10, Worker 0), (8, Main 0)]) \<noteq> None \<and>
   mainpc (the (pipeline (ex_env 1 [''amd64''] True) (ex_flags [] True [''b.txt''])
       (ex_sched [(10, Worker 0), (8, Main 0)]))) =
     M_Failf ''failed to write output file: permission denied'' \<and>
   map (\<lambda>a. (build a, buildDir a)) (arches (the (pipeline (ex_env 1 [''amd64''] True)
       (ex_flags [] True [''b.txt'']) (ex_sched [(10, Worker 0), (8, Main 0)])))) =
     [(True, ''/tmp/syzkaller-kernel-build0'')] \<and>
   TempDir (ex_env 1 [''amd64''] True) 0 = Inr ''/tmp/syzkaller-kernel-build0'' \<and>
   filter (\<lambda>e. is_wait e \<or> is_rm e) (trace (the (pipeline (ex_env 1 [''amd64''] True)
       (ex_flags [] True [''b.txt'']) (ex_sched [(10, Worker 0), (8, Main 0)])))) =
     [Wait (ArchJob 0), Wait (FileJob 0 0)]"
proof -
  let ?p = "pipeline (ex_env 1 [''amd64''] True) (ex_flags [] True [''b.txt''])
       (ex_sched [(10, Worker 0), (8, Main 0)])"
  have "case ?p of None \<Rightarrow> False
     | Some s \<Rightarrow> mainpc s = M_Failf ''failed to write output file: permission denied'' \<and>
         map (\<lambda>a. (build a, buildDir a)) (arches s) = [(True, ''/tmp/syzkaller-kernel-build0'')] \<and>
         filter (\<lambda>e. is_wait e \<or> is_rm e) (trace s) = [Wait (ArchJob 0), Wait (FileJob 0 0)]"
    by code_simp
  note k = some_caseD [OF this]
  let ?s = "the ?p"
  from k have pn: "?p \<noteq> None" and ps: "?p = Some ?s"
    and m: "mainpc ?s = M_Failf ''failed to write output file: permission denied''"
    and b: "map (\<lambda>a. (build a, buildDir a)) (arches ?s) = [(True, ''/tmp/syzkaller-kernel-build0'')]"
    and f: "filter (\<lambda>e. is_wait e \<or> is_rm e) (trace ?s) = [Wait (ArchJob 0), Wait (FileJob 0 0)]"
    by blast+
  have fb: "flagBuild (ex_flags [] True [''b.txt''])" by (simp add: ex_flags_def)
  have td: "TempDir (ex_env 1 [''amd64''] True) 0 = Inr ''/tmp/syzkaller-kernel-build0''"
    by (simp add: ex_env_def)
  from fb pn m b td f show ?thesis by blast
qed

subsection \<open>C1: results are written before the signal and read after it\<close>

text \<open>
  Claim C1, as far as it holds. In every history of the program: a result field
  (\<^verbatim>\<open>err\<close>, \<^verbatim>\<open>consts\<close>, \<^verbatim>\<open>undeclared\<close>) of a job is written by the worker that is executing
  the job, while the job's channel is still open; a worker closes the channel of the job it
  is executing, once, after it has written the job's error (and, for a file, its two
  maps); main completes a receive from a channel only after the close, and reads a
  result field of a job only after its receive from the job's channel; main never reads
  \<^verbatim>\<open>info\<close>. The \<^verbatim>\<open>info\<close> of a file, however, is written after the close of the
  architecture's channel (line 161 follows line 158), by the worker executing the
  architecture job, before it sends the file to the queue, and a file is received by a
  worker only after it has been sent. The claim itself says that the infos are final
  before main can observe the architecture's signal.
\<close>

theorem results_before_signal:
  assumes p: "pipeline env fl ts = Some s" and n: "n < length (trace s)"
  shows "(\<forall>w j f. trace s ! n = Write w j f \<and> f \<noteq> InfoF \<longrightarrow>
            cur_job w (take n (trace s)) = Some j \<and> \<not> closed (take n (trace s)) j) \<and>
    (\<forall>w j. trace s ! n = Close w j \<longrightarrow>
            cur_job w (take n (trace s)) = Some j \<and> \<not> closed (take n (trace s)) j \<and>
            Write w j ErrF \<in> set (take n (trace s)) \<and>
            (\<forall>p k. j = FileJob p k \<longrightarrow>
               Write w j ConstsF \<in> set (take n (trace s)) \<and>
               Write w j UndeclaredF \<in> set (take n (trace s)))) \<and>
    (\<forall>j. trace s ! n = Wait j \<longrightarrow> closed (take n (trace s)) j) \<and>
    (\<forall>j f. trace s ! n = Read j f \<longrightarrow> f \<noteq> InfoF \<and> Wait j \<in> set (take n (trace s))) \<and>
    (\<forall>w j. trace s ! n = Write w j InfoF \<longrightarrow>
       (\<exists>p k. j = FileJob p k \<and> cur_job w (take n (trace s)) = Some (ArchJob p) \<and>
          Close w (ArchJob p) \<in> set (take n (trace s)) \<and> \<not> sent (take n (trace s)) j)) \<and>
    (\<forall>w j. trace s ! n = Send w j \<longrightarrow> Write w j InfoF \<in> set (take n (trace s))) \<and>
    (\<forall>w p k. trace s ! n = Recv w (FileJob p k) \<longrightarrow> sent (take n (trace s)) (FileJob p k))"
proof -
  note ok = pipeline_ok_event [OF p n]
  from n have "trace s ! n \<in> set (trace s)" by simp
  with no_info_read [OF p] have ni: "trace s ! n \<noteq> Read j InfoF" for j
    by metis
  show ?thesis
  proof (cases "trace s ! n")
    case (Write w j f)
    with ok show ?thesis
      by (cases f; cases j) (simp_all add: ok_event_def)
  next
    case (Close w j)
    with ok show ?thesis
      by (cases j) (simp_all add: ok_event_def)
  next
    case (Read j f)
    with ok ni show ?thesis
      by (auto simp: ok_event_def)
  next
    case (Send w j)
    with ok show ?thesis
      by (cases j) (simp_all add: ok_event_def)
  next
    case (Recv w j)
    with ok show ?thesis
      by (cases j) (simp_all add: ok_event_def)
  qed (use ok in \<open>simp_all add: ok_event_def\<close>)
qed

text \<open>
  In a run of one architecture with one file: the worker closes the channel of the file
  after its three writes, and main reads the constants after its receive from it.
\<close>

theorem results_before_signal_witness:
  "pipeline (ex_env 1 [''amd64''] False) (ex_flags [] False [''b.txt''])
       (ex_sched [(10, Worker 0), (12, Main 0)]) \<noteq> None \<and>
   trace (the (pipeline (ex_env 1 [''amd64''] False) (ex_flags [] False [''b.txt''])
       (ex_sched [(10, Worker 0), (12, Main 0)]))) ! 9 = Close 0 (FileJob 0 0) \<and>
   take 9 (trace (the (pipeline (ex_env 1 [''amd64''] False) (ex_flags [] False [''b.txt''])
       (ex_sched [(10, Worker 0), (12, Main 0)])))) =
     [Recv 0 (ArchJob 0), Write 0 (ArchJob 0) ErrF, Close 0 (ArchJob 0),
      Write 0 (FileJob 0 0) InfoF, Send 0 (FileJob 0 0), Recv 0 (FileJob 0 0),
      Write 0 (FileJob 0 0) ConstsF, Write 0 (FileJob 0 0) UndeclaredF,
      Write 0 (FileJob 0 0) ErrF] \<and>
   Write 0 (FileJob 0 0) ConstsF \<in> set (take 9 (trace (the (pipeline (ex_env 1 [''amd64''] False)
       (ex_flags [] False [''b.txt'']) (ex_sched [(10, Worker 0), (12, Main 0)]))))) \<and>
   \<not> closed (take 9 (trace (the (pipeline (ex_env 1 [''amd64''] False)
       (ex_flags [] False [''b.txt'']) (ex_sched [(10, Worker 0), (12, Main 0)]))))) (FileJob 0 0) \<and>
   trace (the (pipeline (ex_env 1 [''amd64''] False) (ex_flags [] False [''b.txt''])
       (ex_sched [(10, Worker 0), (12, Main 0)]))) ! 15 = Read (FileJob 0 0) ConstsF \<and>
   Wait (FileJob 0 0) \<in> set (take 15 (trace (the (pipeline (ex_env 1 [''amd64''] False)
       (ex_flags [] False [''b.txt'']) (ex_sched [(10, Worker 0), (12, Main 0)])))))"
proof -
  let ?p = "pipeline (ex_env 1 [''amd64''] False) (ex_flags [] False [''b.txt''])
       (ex_sched [(10, Worker 0), (12, Main 0)])"
  let ?s = "the ?p"
  have "case ?p of None \<Rightarrow> False
     | Some s \<Rightarrow> 9 < length (trace s) \<and> trace s ! 9 = Close 0 (FileJob 0 0) \<and>
         take 9 (trace s) =
           [Recv 0 (ArchJob 0), Write 0 (ArchJob 0) ErrF, Close 0 (ArchJob 0),
            Write 0 (FileJob 0 0) InfoF, Send 0 (FileJob 0 0), Recv 0 (FileJob 0 0),
            Write 0 (FileJob 0 0) ConstsF, Write 0 (FileJob 0 0) UndeclaredF,
            Write 0 (FileJob 0 0) ErrF] \<and>
         15 < length (trace s) \<and> trace s ! 15 = Read (FileJob 0 0) ConstsF"
    by code_simp
  note k = some_caseD [OF this]
  from k have pn: "?p \<noteq> None" and ps: "?p = Some ?s"
    and n9: "9 < length (trace ?s)" and e9: "trace ?s ! 9 = Close 0 (FileJob 0 0)"
    and t9: "take 9 (trace ?s) =
           [Recv 0 (ArchJob 0), Write 0 (ArchJob 0) ErrF, Close 0 (ArchJob 0),
            Write 0 (FileJob 0 0) InfoF, Send 0 (FileJob 0 0), Recv 0 (FileJob 0 0),
            Write 0 (FileJob 0 0) ConstsF, Write 0 (FileJob 0 0) UndeclaredF,
            Write 0 (FileJob 0 0) ErrF]"
    and n15: "15 < length (trace ?s)" and e15: "trace ?s ! 15 = Read (FileJob 0 0) ConstsF"
    by blast+
  from results_before_signal [OF ps n9] e9
  have 1: "Write 0 (FileJob 0 0) ConstsF \<in> set (take 9 (trace ?s))"
    and 2: "\<not> closed (take 9 (trace ?s)) (FileJob 0 0)"
    by blast+
  from results_before_signal [OF ps n15] e15
  have 3: "Wait (FileJob 0 0) \<in> set (take 15 (trace ?s))"
    by blast
  from pn e9 t9 1 2 e15 3 show ?thesis by blast
qed

text \<open>
  Against claim C1 as stated: main has completed its receive from the architecture's
  channel while the \<^verbatim>\<open>info\<close> of the architecture's file is still unset; the worker sets
  it two steps later.
\<close>

theorem info_attached_after_signal:
  "pipeline (ex_env 1 [''amd64''] False) (ex_flags [] False [''b.txt''])
       (ex_sched [(3, Worker 0), (2, Main 0)]) \<noteq> None \<and>
   trace (the (pipeline (ex_env 1 [''amd64''] False) (ex_flags [] False [''b.txt''])
       (ex_sched [(3, Worker 0), (2, Main 0)]))) =
     [Recv 0 (ArchJob 0), Write 0 (ArchJob 0) ErrF, Close 0 (ArchJob 0),
      Print_generating ''windows'' ''amd64'', Wait (ArchJob 0)] \<and>
   map_option Consts (info (the_file (arches (the (pipeline (ex_env 1 [''amd64''] False)
       (ex_flags [] False [''b.txt''])
       (ex_sched [(3, Worker 0), (2, Main 0)])))) 0 0)) = None \<and>
   pipeline (ex_env 1 [''amd64''] False) (ex_flags [] False [''b.txt''])
       (ex_sched [(3, Worker 0), (2, Main 0), (2, Worker 0)]) \<noteq> None \<and>
   trace (the (pipeline (ex_env 1 [''amd64''] False) (ex_flags [] False [''b.txt''])
       (ex_sched [(3, Worker 0), (2, Main 0), (2, Worker 0)]))) =
     [Recv 0 (ArchJob 0), Write 0 (ArchJob 0) ErrF, Close 0 (ArchJob 0),
      Print_generating ''windows'' ''amd64'', Wait (ArchJob 0),
      Write 0 (FileJob 0 0) InfoF] \<and>
   map_option Consts (info (the_file (arches (the (pipeline (ex_env 1 [''amd64''] False)
       (ex_flags [] False [''b.txt''])
       (ex_sched [(3, Worker 0), (2, Main 0), (2, Worker 0)])))) 0 0)) = Some [''Z'']"
proof -
  let ?p = "pipeline (ex_env 1 [''amd64''] False) (ex_flags [] False [''b.txt''])
       (ex_sched [(3, Worker 0), (2, Main 0)])"
  let ?q = "pipeline (ex_env 1 [''amd64''] False) (ex_flags [] False [''b.txt''])
       (ex_sched [(3, Worker 0), (2, Main 0), (2, Worker 0)])"
  have "case ?p of None \<Rightarrow> False
     | Some s \<Rightarrow> trace s =
         [Recv 0 (ArchJob 0), Write 0 (ArchJob 0) ErrF, Close 0 (ArchJob 0),
          Print_generating ''windows'' ''amd64'', Wait (ArchJob 0)] \<and>
         map_option Consts (info (the_file (arches s) 0 0)) = None"
    by code_simp
  note k = some_caseD [OF this]
  have "case ?q of None \<Rightarrow> False
     | Some s \<Rightarrow> trace s =
         [Recv 0 (ArchJob 0), Write 0 (ArchJob 0) ErrF, Close 0 (ArchJob 0),
          Print_generating ''windows'' ''amd64'', Wait (ArchJob 0),
          Write 0 (FileJob 0 0) InfoF] \<and>
         map_option Consts (info (the_file (arches s) 0 0)) = Some [''Z'']"
    by code_simp
  note l = some_caseD [OF this]
  from k l show ?thesis by blast
qed

subsection \<open>C4: who sends the file jobs\<close>

text \<open>
  Claim C4. In every history of the program, a send to the queue is the send of a file
  job by the worker that is executing the file's architecture job, after that worker
  closed the architecture's channel, the file not having been sent before; the
  architecture has recorded no error. A worker receives a file job only after it has
  been sent, and the file jobs in the queue have been sent. Hence, for an architecture
  whose job recorded an error, no file job is in the queue and none has been sent,
  received, written to or closed.
\<close>

theorem file_jobs_sent_by_parent:
  assumes p: "pipeline env fl ts = Some s"
  shows "(\<forall>n w j. n < length (trace s) \<and> trace s ! n = Send w j \<longrightarrow>
       (\<exists>p k. j = FileJob p k \<and> cur_job w (take n (trace s)) = Some (ArchJob p) \<and>
          Close w (ArchJob p) \<in> set (take n (trace s)) \<and> \<not> sent (take n (trace s)) j \<and>
          p < length (arches s) \<and> Arch.err (arches s ! p) = None)) \<and>
    (\<forall>n w p k. n < length (trace s) \<and> trace s ! n = Recv w (FileJob p k) \<longrightarrow>
       sent (take n (trace s)) (FileJob p k)) \<and>
    (\<forall>p k. FileJob p k \<in> set (jobC s) \<longrightarrow> sent (trace s) (FileJob p k)) \<and>
    (\<forall>p k. p < length (arches s) \<and> Arch.err (arches s ! p) \<noteq> None \<longrightarrow>
       FileJob p k \<notin> set (jobC s) \<and>
       (\<forall>w f. Send w (FileJob p k) \<notin> set (trace s) \<and> Recv w (FileJob p k) \<notin> set (trace s) \<and>
          Write w (FileJob p k) f \<notin> set (trace s) \<and> Close w (FileJob p k) \<notin> set (trace s)))"
proof -
  note l = pipeline_timed(1) [OF p]
  have ok: "ok_event (take n (trace s)) (trace s ! n)" if "n < length (trace s)" for n
    using p that by (rule pipeline_ok_event)
  from l have a: "p < length (arches s) \<and> Arch.err (arches s ! p) = None"
    if "Send w (FileJob p k) \<in> set (trace s) \<or> Write w (FileJob p k) InfoF \<in> set (trace s)" for w p k
    using that unfolding tlink_def by blast
  from l have q: "sent (trace s) (FileJob p k)" if "FileJob p k \<in> set (jobC s)" for p k
    using that unfolding tlink_def by blast
  have 1: "\<exists>p k. j = FileJob p k \<and> cur_job w (take n (trace s)) = Some (ArchJob p) \<and>
          Close w (ArchJob p) \<in> set (take n (trace s)) \<and> \<not> sent (take n (trace s)) j \<and>
          p < length (arches s) \<and> Arch.err (arches s ! p) = None"
    if "n < length (trace s)" "trace s ! n = Send w j" for n w j
  proof (cases j)
    case (ArchJob p)
    with ok [OF that(1)] that(2) show ?thesis by (simp add: ok_event_def)
  next
    case (FileJob p k)
    from that have "Send w j \<in> set (trace s)" by (metis nth_mem)
    with FileJob a [of w p k] ok [OF that(1)] that(2) show ?thesis
      by (simp add: ok_event_def)
  qed
  have 2: "sent (take n (trace s)) (FileJob p k)"
    if "n < length (trace s)" "trace s ! n = Recv w (FileJob p k)" for n w p k
    using ok [OF that(1)] that(2) by (simp add: ok_event_def)
  have 4: "FileJob p k \<notin> set (jobC s) \<and>
       (\<forall>w f. Send w (FileJob p k) \<notin> set (trace s) \<and> Recv w (FileJob p k) \<notin> set (trace s) \<and>
          Write w (FileJob p k) f \<notin> set (trace s) \<and> Close w (FileJob p k) \<notin> set (trace s))"
    if e: "p < length (arches s)" "Arch.err (arches s ! p) \<noteq> None" for p k
  proof -
    have ns: "\<not> sent (trace s) (FileJob p k)"
    proof
      assume "sent (trace s) (FileJob p k)"
      then obtain w where "Send w (FileJob p k) \<in> set (trace s)" by (auto simp: sent_iff)
      with a [of w p k] e show False by simp
    qed
    have pre: "\<not> sent (take n (trace s)) (FileJob p k)" for n
      using ns by (auto simp: sent_iff dest: in_set_takeD)
    have nr: "Recv w (FileJob p k) \<notin> set (trace s)" for w
    proof
      assume "Recv w (FileJob p k) \<in> set (trace s)"
      then obtain n where "n < length (trace s)" "trace s ! n = Recv w (FileJob p k)"
        by (auto simp: in_set_conv_nth)
      with 2 pre show False by blast
    qed
    have nc: "cur_job w (take n (trace s)) \<noteq> Some (FileJob p k)" for w n
      using nr [of w] by (auto dest!: cur_job_recv in_set_takeD)
    have nw: "Write w (FileJob p k) f \<notin> set (trace s)" for w f
    proof
      assume "Write w (FileJob p k) f \<in> set (trace s)"
      then obtain n where n: "n < length (trace s)" "trace s ! n = Write w (FileJob p k) f"
        by (auto simp: in_set_conv_nth)
      show False
      proof (cases "f = InfoF")
        case True
        with a [of w p k] n e show False by (metis nth_mem)
      next
        case False
        with ok [OF n(1)] n(2) nc [of w n] show False
          by (cases f) (simp_all add: ok_event_def)
      qed
    qed
    have ncl: "Close w (FileJob p k) \<notin> set (trace s)" for w
    proof
      assume "Close w (FileJob p k) \<in> set (trace s)"
      then obtain n where n: "n < length (trace s)" "trace s ! n = Close w (FileJob p k)"
        by (auto simp: in_set_conv_nth)
      with ok [OF n(1)] nc [of w n] show False
        by (simp add: ok_event_def)
    qed
    from q [of p k] ns have nq: "FileJob p k \<notin> set (jobC s)" by blast
    from ns have nsd: "Send w (FileJob p k) \<notin> set (trace s)" for w
      by (auto simp: sent_iff)
    from nq nsd nr nw ncl show ?thesis by blast
  qed
  from 1 2 q 4 show ?thesis by blast
qed

text \<open>
  A run over amd64 and arm, where arm fails: the file of amd64 is sent by the worker that
  executed amd64, the file of arm does not occur in the history.
\<close>

theorem file_jobs_sent_by_parent_witness:
  "pipeline (ex_env 1 [''amd64'', ''arm''] False) (ex_flags [] False [''b.txt''])
       (ex_sched [(14, Worker 0), (16, Main 0)]) \<noteq> None \<and>
   trace (the (pipeline (ex_env 1 [''amd64'', ''arm''] False) (ex_flags [] False [''b.txt''])
       (ex_sched [(14, Worker 0), (16, Main 0)]))) ! 4 = Send 0 (FileJob 0 0) \<and>
   cur_job 0 (take 4 (trace (the (pipeline (ex_env 1 [''amd64'', ''arm''] False)
       (ex_flags [] False [''b.txt'']) (ex_sched [(14, Worker 0), (16, Main 0)]))))) =
     Some (ArchJob 0) \<and>
   Close 0 (ArchJob 0) \<in> set (take 4 (trace (the (pipeline (ex_env 1 [''amd64'', ''arm''] False)
       (ex_flags [] False [''b.txt'']) (ex_sched [(14, Worker 0), (16, Main 0)]))))) \<and>
   map Arch.err (arches (the (pipeline (ex_env 1 [''amd64'', ''arm''] False)
       (ex_flags [] False [''b.txt'']) (ex_sched [(14, Worker 0), (16, Main 0)])))) =
     [None, Some ''no headers for arm''] \<and>
   (\<forall>w f. Send w (FileJob 1 0) \<notin> set (trace (the (pipeline (ex_env 1 [''amd64'', ''arm''] False)
          (ex_flags [] False [''b.txt'']) (ex_sched [(14, Worker 0), (16, Main 0)])))) \<and>
      Recv w (FileJob 1 0) \<notin> set (trace (the (pipeline (ex_env 1 [''amd64'', ''arm''] False)
          (ex_flags [] False [''b.txt'']) (ex_sched [(14, Worker 0), (16, Main 0)])))) \<and>
      Write w (FileJob 1 0) f \<notin> set (trace (the (pipeline (ex_env 1 [''amd64'', ''arm''] False)
          (ex_flags [] False [''b.txt'']) (ex_sched [(14, Worker 0), (16, Main 0)])))) \<and>
      Close w (FileJob 1 0) \<notin> set (trace (the (pipeline (ex_env 1 [''amd64'', ''arm''] False)
          (ex_flags [] False [''b.txt'']) (ex_sched [(14, Worker 0), (16, Main 0)])))))"
proof -
  let ?p = "pipeline (ex_env 1 [''amd64'', ''arm''] False) (ex_flags [] False [''b.txt''])
       (ex_sched [(14, Worker 0), (16, Main 0)])"
  let ?s = "the ?p"
  have "case ?p of None \<Rightarrow> False
     | Some s \<Rightarrow> 4 < length (trace s) \<and> trace s ! 4 = Send 0 (FileJob 0 0) \<and>
         map Arch.err (arches s) = [None, Some ''no headers for arm'']"
    by code_simp
  note k = some_caseD [OF this]
  from k have pn: "?p \<noteq> None" and ps: "?p = Some ?s"
    and n: "4 < length (trace ?s)" and e: "trace ?s ! 4 = Send 0 (FileJob 0 0)"
    and er: "map Arch.err (arches ?s) = [None, Some ''no headers for arm'']"
    by blast+
  note t = file_jobs_sent_by_parent [OF ps]
  from t n e have 1: "cur_job 0 (take 4 (trace ?s)) = Some (ArchJob 0)"
    and 2: "Close 0 (ArchJob 0) \<in> set (take 4 (trace ?s))"
    by blast+
  from er have "length (map Arch.err (arches ?s)) = 2" and "map Arch.err (arches ?s) ! 1 \<noteq> None"
    by simp_all
  then have "1 < length (arches ?s) \<and> Arch.err (arches ?s ! 1) \<noteq> None"
    by simp
  with t have 3: "\<forall>w f. Send w (FileJob 1 0) \<notin> set (trace ?s) \<and>
      Recv w (FileJob 1 0) \<notin> set (trace ?s) \<and> Write w (FileJob 1 0) f \<notin> set (trace ?s) \<and>
      Close w (FileJob 1 0) \<notin> set (trace ?s)"
    by blast
  from pn e 1 2 er 3 show ?thesis by blast
qed

subsection \<open>C5: a job error does not stop the collection, but a full queue can\<close>

text \<open>
  Claim C5 fails on the following run, because of the capacity of the queue (line 88:
  \<^verbatim>\<open>len(arches)\<close>). One worker, the architectures arm and amd64, three files. The job of
  arm fails; main records the error, prints it and goes on to amd64 (what a job error
  does to the collection that ends is lemma \<open>collection_complete\<close>). The worker
  sends two files of amd64 and blocks at line 162 sending the third, the queue being
  full; main blocks at line 111 receiving from the channel of the first file, which no
  worker will ever execute. No thread can take a step, and main has not exited.
\<close>

theorem collector_blocked_for_ever:
  "pipeline (ex_env 1 [] False) (ex_flags ''arm,amd64'' False [''a.txt'', ''b.txt'', ''n.txt''])
       (ex_sched [(13, Worker 0), (6, Main 0)]) \<noteq> None \<and>
   map Arch.err (arches (the (pipeline (ex_env 1 [] False)
       (ex_flags ''arm,amd64'' False [''a.txt'', ''b.txt'', ''n.txt''])
       (ex_sched [(13, Worker 0), (6, Main 0)])))) = [Some ''no headers for arm'', None] \<and>
   mev (trace (the (pipeline (ex_env 1 [] False)
       (ex_flags ''arm,amd64'' False [''a.txt'', ''b.txt'', ''n.txt''])
       (ex_sched [(13, Worker 0), (6, Main 0)])))) =
     [Print_generating ''windows'' ''arm'', Wait (ArchJob 0), Read (ArchJob 0) ErrF,
      Print_arch_err ''no headers for arm'',
      Print_generating ''windows'' ''amd64'', Wait (ArchJob 1), Read (ArchJob 1) ErrF] \<and>
   mainpc (the (pipeline (ex_env 1 [] False)
       (ex_flags ''arm,amd64'' False [''a.txt'', ''b.txt'', ''n.txt''])
       (ex_sched [(13, Worker 0), (6, Main 0)]))) = M_File 1 0 \<and>
   jobC (the (pipeline (ex_env 1 [] False)
       (ex_flags ''arm,amd64'' False [''a.txt'', ''b.txt'', ''n.txt''])
       (ex_sched [(13, Worker 0), (6, Main 0)]))) = [FileJob 1 0, FileJob 1 1] \<and>
   map (\<lambda>f. (name f, File.done_ch f)) (files (arches (the (pipeline (ex_env 1 [] False)
       (ex_flags ''arm,amd64'' False [''a.txt'', ''b.txt'', ''n.txt''])
       (ex_sched [(13, Worker 0), (6, Main 0)]))) ! 1)) =
     [(''a.txt'', False), (''b.txt'', False), (''n.txt'', False)] \<and>
   (\<forall>t. pipeline (ex_env 1 [] False)
       (ex_flags ''arm,amd64'' False [''a.txt'', ''b.txt'', ''n.txt''])
       (ex_sched [(13, Worker 0), (6, Main 0)] @ [t]) = None)"
proof -
  let ?env = "ex_env 1 [] False :: (unit, (string \<times> ConstMap \<times> BoolMap) list) Env"
  let ?fl = "ex_flags ''arm,amd64'' False [''a.txt'', ''b.txt'', ''n.txt'']"
  let ?p = "pipeline ?env ?fl (ex_sched [(13, Worker 0), (6, Main 0)])"
  let ?s = "the ?p"
  have "case ?p of None \<Rightarrow> False
     | Some s \<Rightarrow> map Arch.err (arches s) = [Some ''no headers for arm'', None] \<and>
         mev (trace s) =
           [Print_generating ''windows'' ''arm'', Wait (ArchJob 0), Read (ArchJob 0) ErrF,
            Print_arch_err ''no headers for arm'',
            Print_generating ''windows'' ''amd64'', Wait (ArchJob 1), Read (ArchJob 1) ErrF] \<and>
         mainpc s = M_File 1 0 \<and>
         jobC s = [FileJob 1 0, FileJob 1 1] \<and>
         map (\<lambda>f. (name f, File.done_ch f)) (files (arches s ! 1)) =
           [(''a.txt'', False), (''b.txt'', False), (''n.txt'', False)] \<and>
         length (arches s) = 2 \<and> length (workers s) = 1 \<and>
         (case workers s ! 0 of W_Send p i k \<Rightarrow> True | _ \<Rightarrow> False)"
    by code_simp
  note k = some_caseD [OF this]
  from k have pn: "?p \<noteq> None" and ps: "?p = Some ?s"
    and e: "map Arch.err (arches ?s) = [Some ''no headers for arm'', None]"
    and m: "mev (trace ?s) =
           [Print_generating ''windows'' ''arm'', Wait (ArchJob 0), Read (ArchJob 0) ErrF,
            Print_arch_err ''no headers for arm'',
            Print_generating ''windows'' ''amd64'', Wait (ArchJob 1), Read (ArchJob 1) ErrF]"
    and pc: "mainpc ?s = M_File 1 0"
    and q: "jobC ?s = [FileJob 1 0, FileJob 1 1]"
    and f: "map (\<lambda>f. (name f, File.done_ch f)) (files (arches ?s ! 1)) =
           [(''a.txt'', False), (''b.txt'', False), (''n.txt'', False)]"
    and la: "length (arches ?s) = 2" and lw: "length (workers ?s) = 1"
    and w: "case workers ?s ! 0 of W_Send p i k \<Rightarrow> True | _ \<Rightarrow> False"
    by blast+
  from f have nf: "0 < length (files (arches ?s ! 1))" and nd: "\<not> File.done_ch (files (arches ?s ! 1) ! 0)"
    by (auto simp: map_eq_Cons_conv)
  have stuck: "step ?env ?fl ex ?s t = None" for t ex
  proof (cases t)
    case (Main n)
    with pc nf nd show ?thesis
      by (simp add: step_def terminated_def main_step_def the_file_def)
  next
    case (Worker v)
    with w q la lw show ?thesis
      by (auto simp: step_def worker_step_def split: wpc.splits)
  qed
  have "pipeline ?env ?fl (ex_sched [(13, Worker 0), (6, Main 0)] @ [t]) = None" for t
    using ps stuck by (rule pipeline_stuck)
  with pn e m pc q f show ?thesis by blast
qed

end
